theory Spec2Isabelle
  imports Complex_Main "HOL-Library.Word"
begin

unbundle bit_operations_syntax

section \<open>The health check of the Infinite Noise Multiplier (healthcheck.c)\<close>

text \<open>
  The file keeps its whole state in static variables; the model collects them in one
  record that every operation takes and returns. The fixed-width counters are words of
  the width the source declares, so that \<open>+\<close> wraps as in C.

  The three \<open>double\<close> variables are modelled by real numbers: products and quotients are
  exact, \<open>log(K)/log(2.0)\<close> is \<open>ln K / ln 2\<close> and \<open>pow(2.0, x)\<close> is \<open>2 powr x\<close>.
  A quotient whose divisor is zero is not a finite double in C (it is an infinity or a
  NaN); the model gives every such place a branch of its own.

  A table pointer is \<open>Null\<close>, a live block of cells, or a block that \<open>free\<close> has
  released. Reading or writing through a pointer that is not live, or outside its block,
  is undefined in C and is the error \<open>Undefined\<close> of the model.
\<close>

type_synonym u8 = "8 word"
type_synonym u32 = "32 word"
type_synonym u64 = "64 word"

datatype table = Null | Block "u32 list" | Released

datatype error =
    MaxSequenceExceeded bool  \<comment> \<open>\<open>exit(1)\<close> after a run of ones (\<open>True\<close>) or zeros\<close>
  | Undefined                 \<comment> \<open>undefined behaviour of C\<close>
  | NotFinite                 \<comment> \<open>a double left the finite range\<close>

record state =
  inmN :: u8
  inmPrevBits :: u32
  inmNumBitsSampled :: u32
  inmOnesEven :: table
  inmZerosEven :: table
  inmOnesOdd :: table
  inmZerosOdd :: table
  inmK :: real
  inmExpectedEntropyPerBit :: real
  inmNumBitsOfEntropy :: u32
  inmCurrentProbability :: real
  inmTotalBits :: u64
  inmPrevBit :: bool
  inmEntropyLevel :: u32
  inmNumSequentialZeros :: u32
  inmNumSequentialOnes :: u32
  inmTotalOnes :: u32
  inmTotalZeros :: u32
  inmEvenMisfires :: u32
  inmOddMisfires :: u32
  inmPrevEven :: bool
  inmPrevOdd :: bool
  inmDebug :: bool

definition INM_MIN_DATA :: nat where "INM_MIN_DATA = 80000"
definition INM_ACCURACY :: real where "INM_ACCURACY = 102 / 100"
definition INM_MAX_SEQUENCE :: nat where "INM_MAX_SEQUENCE = 20"
definition INM_MAX_COUNT :: nat where "INM_MAX_COUNT = 2 ^ 14"
definition INM_MAX_ENTROPY :: nat where "INM_MAX_ENTROPY = 1600"

text \<open>The static variables before any call: C initialises them to zero.\<close>

definition initial :: state where
  "initial = \<lparr> inmN = 0, inmPrevBits = 0, inmNumBitsSampled = 0,
     inmOnesEven = Null, inmZerosEven = Null, inmOnesOdd = Null, inmZerosOdd = Null,
     inmK = 0, inmExpectedEntropyPerBit = 0, inmNumBitsOfEntropy = 0,
     inmCurrentProbability = 0, inmTotalBits = 0, inmPrevBit = False,
     inmEntropyLevel = 0, inmNumSequentialZeros = 0, inmNumSequentialOnes = 0,
     inmTotalOnes = 0, inmTotalZeros = 0, inmEvenMisfires = 0, inmOddMisfires = 0,
     inmPrevEven = False, inmPrevOdd = False, inmDebug = False \<rparr>"

subsection \<open>Errors and memory\<close>

text \<open>Sequencing of steps that may fail: the first error ends the computation.\<close>

definition andThen :: "error + 'a \<Rightarrow> ('a \<Rightarrow> error + 'b) \<Rightarrow> error + 'b" where
  "andThen r f = (case r of Inl e \<Rightarrow> Inl e | Inr x \<Rightarrow> f x)"

text \<open>
  \<open>calloc\<close> returns a zeroed block or \<open>NULL\<close>; which of the two is not decided by the
  program, so the outcome of each call is an argument of the model.
\<close>

definition calloc :: "bool \<Rightarrow> nat \<Rightarrow> table" where
  "calloc ok n = (if ok then Block (replicate n 0) else Null)"

definition free :: "table \<Rightarrow> error + table" where
  "free t = (case t of Null \<Rightarrow> Inr Null | Block xs \<Rightarrow> Inr Released | Released \<Rightarrow> Inl Undefined)"

definition rd :: "table \<Rightarrow> nat \<Rightarrow> error + u32" where
  "rd t i = (case t of Block xs \<Rightarrow> if i < length xs then Inr (xs ! i) else Inl Undefined
                     | _ \<Rightarrow> Inl Undefined)"

definition wr :: "table \<Rightarrow> nat \<Rightarrow> u32 \<Rightarrow> error + table" where
  "wr t i v = (case t of Block xs \<Rightarrow> if i < length xs then Inr (Block (xs[i := v])) else Inl Undefined
                       | _ \<Rightarrow> Inl Undefined)"

subsection \<open>Start and stop\<close>

text \<open>\<open>inmHealthCheckStop\<close>: every pointer that is not \<open>NULL\<close> is passed to \<open>free\<close>; the
  pointer variables keep their values.\<close>

definition inmHealthCheckStop :: "state \<Rightarrow> error + state" where
  "inmHealthCheckStop s =
     andThen (free (inmOnesEven s)) (\<lambda>oe.
     andThen (free (inmZerosEven s)) (\<lambda>ze.
     andThen (free (inmOnesOdd s)) (\<lambda>od.
     andThen (free (inmZerosOdd s)) (\<lambda>zd.
       Inr (s\<lparr>inmOnesEven := oe, inmZerosEven := ze, inmOnesOdd := od, inmZerosOdd := zd\<rparr>)))))"

definition resetStats :: "state \<Rightarrow> state" where
  "resetStats s = s\<lparr>inmNumBitsSampled := 0, inmCurrentProbability := 1,
     inmNumBitsOfEntropy := 0, inmEntropyLevel := 0, inmTotalOnes := 0, inmTotalZeros := 0,
     inmEvenMisfires := 0, inmOddMisfires := 0\<rparr>"

text \<open>
  \<open>inmHealthCheckStart\<close>. The argument \<open>mem\<close> gives the outcome of the four \<open>calloc\<close>
  calls in their order. The result pairs the returned \<open>bool\<close> with the state left behind.
\<close>

definition inmHealthCheckStart ::
  "state \<Rightarrow> (nat \<Rightarrow> bool) \<Rightarrow> u8 \<Rightarrow> real \<Rightarrow> bool \<Rightarrow> error + bool \<times> state" where
  "inmHealthCheckStart s mem N K debug =
     (if N < 1 \<or> N > 30 then Inr (False, s)
      else
        let s1 = s\<lparr>inmDebug := debug, inmNumBitsOfEntropy := 0, inmCurrentProbability := 1,
                   inmK := K, inmN := N, inmPrevBits := 0\<rparr>;
            s2 = s1\<lparr>inmOnesEven := calloc (mem 0) (2 ^ unat N),
                    inmZerosEven := calloc (mem 1) (2 ^ unat N),
                    inmOnesOdd := calloc (mem 2) (2 ^ unat N),
                    inmZerosOdd := calloc (mem 3) (2 ^ unat N)\<rparr>;
            s3 = s2\<lparr>inmExpectedEntropyPerBit := ln K / ln 2, inmTotalBits := 0,
                    inmPrevBit := False, inmNumSequentialZeros := 0,
                    inmNumSequentialOnes := 0\<rparr>;
            s4 = resetStats s3
        in if inmOnesEven s4 = Null \<or> inmZerosEven s4 = Null \<or> inmOnesOdd s4 = Null
              \<or> inmZerosOdd s4 = Null
           then andThen (inmHealthCheckStop s4) (\<lambda>s5. Inr (False, s5))
           else Inr (True, s4))"

subsection \<open>The estimators and the verdict\<close>

text \<open>
  \<open>(double)inmNumBitsOfEntropy/inmNumBitsSampled\<close> is a finite number unless no bit has
  been sampled; then it is a NaN or an infinity, modelled by \<open>None\<close>.
\<close>

definition inmHealthCheckEstimateEntropyPerBit :: "state \<Rightarrow> real option" where
  "inmHealthCheckEstimateEntropyPerBit s =
     (if inmNumBitsSampled s = 0 then None
      else Some (real (unat (inmNumBitsOfEntropy s)) / real (unat (inmNumBitsSampled s))))"

definition inmHealthCheckEstimateK :: "state \<Rightarrow> real option" where
  "inmHealthCheckEstimateK s =
     (if inmNumBitsSampled s = 0 then None
      else let entropyPerBit = real (unat (inmNumBitsOfEntropy s)) / real (unat (inmNumBitsSampled s))
           in Some (2 powr entropyPerBit))"

text \<open>
  \<open>inmHealthCheckOkToUseData\<close>. With no bit sampled the estimate is a NaN, for which
  every comparison is false, or \<open>+\<infinity>\<close>, for which \<open>entropy/INM_ACCURACY <= expected\<close> is
  false: the function returns \<open>false\<close>.
\<close>

definition inmHealthCheckOkToUseData :: "state \<Rightarrow> bool" where
  "inmHealthCheckOkToUseData s =
     (case inmHealthCheckEstimateEntropyPerBit s of
        None \<Rightarrow> False
      | Some entropy \<Rightarrow>
          INM_MIN_DATA \<le> unat (inmTotalBits s)
          \<and> entropy * INM_ACCURACY \<ge> inmExpectedEntropyPerBit s
          \<and> entropy / INM_ACCURACY \<le> inmExpectedEntropyPerBit s)"

definition inmGetEntropyLevel :: "state \<Rightarrow> u32" where
  "inmGetEntropyLevel s = inmEntropyLevel s"

definition inmClearEntropyLevel :: "state \<Rightarrow> state" where
  "inmClearEntropyLevel s = s\<lparr>inmEntropyLevel := 0\<rparr>"

subsection \<open>Scaling\<close>

text \<open>\<open>scaleStats\<close> shifts the cells \<open>0 .. (1 << inmN) - 1\<close> of each table right by one.\<close>

fun halveCells :: "nat \<Rightarrow> u32 list \<Rightarrow> u32 list option" where
  "halveCells 0 xs = Some xs"
| "halveCells (Suc n) [] = None"
| "halveCells (Suc n) (x # xs) = map_option ((#) (drop_bit 1 x)) (halveCells n xs)"

definition halveTable :: "nat \<Rightarrow> table \<Rightarrow> error + table" where
  "halveTable n t =
     (case t of
        Block xs \<Rightarrow> (case halveCells n xs of None \<Rightarrow> Inl Undefined | Some ys \<Rightarrow> Inr (Block ys))
      | _ \<Rightarrow> Inl Undefined)"

definition scaleStats :: "state \<Rightarrow> error + state" where
  "scaleStats s =
     (if unat (inmN s) > 30 then Inl Undefined
      else
        andThen (halveTable (2 ^ unat (inmN s)) (inmZerosEven s)) (\<lambda>ze.
        andThen (halveTable (2 ^ unat (inmN s)) (inmOnesEven s)) (\<lambda>oe.
        andThen (halveTable (2 ^ unat (inmN s)) (inmZerosOdd s)) (\<lambda>zd.
        andThen (halveTable (2 ^ unat (inmN s)) (inmOnesOdd s)) (\<lambda>od.
          Inr (s\<lparr>inmZerosEven := ze, inmOnesEven := oe, inmZerosOdd := zd, inmOnesOdd := od\<rparr>))))))"

definition scaleEntropy :: "state \<Rightarrow> state" where
  "scaleEntropy s =
     (if unat (inmNumBitsSampled s) = INM_MIN_DATA
      then s\<lparr>inmNumBitsOfEntropy := drop_bit 1 (inmNumBitsOfEntropy s),
             inmNumBitsSampled := drop_bit 1 (inmNumBitsSampled s),
             inmEvenMisfires := drop_bit 1 (inmEvenMisfires s),
             inmOddMisfires := drop_bit 1 (inmOddMisfires s)\<rparr>
      else s)"

definition scaleZeroOneCounts :: "state \<Rightarrow> state" where
  "scaleZeroOneCounts s =
     (let maxVal = (if inmTotalZeros s \<ge> inmTotalOnes s then inmTotalZeros s else inmTotalOnes s)
      in if unat maxVal = INM_MIN_DATA
         then s\<lparr>inmTotalZeros := drop_bit 1 (inmTotalZeros s),
                inmTotalOnes := drop_bit 1 (inmTotalOnes s)\<rparr>
         else s)"

subsection \<open>Adding a bit\<close>

text \<open>
  \<open>inmHealthCheckAddBit\<close> is split at the places where the source's flow of control
  can leave it: the steps before the \<open>while\<close> loop (which may call \<open>exit\<close>), the loop,
  and the steps after it. The two \<open>fprintf\<close> calls of the debug report read the state
  and write to \<open>stderr\<close> only; they are left out. The parameter \<open>even\<close> and the
  variable \<open>bit'\<close> of the source carry a prime here.
\<close>

definition noteMisfire :: "state \<Rightarrow> bool \<Rightarrow> bool \<Rightarrow> bool \<Rightarrow> state" where
  "noteMisfire s evenBit oddBit even' =
     (let s1 = (if even'
                then (if evenBit \<noteq> inmPrevEven s
                      then s\<lparr>inmEvenMisfires := inmEvenMisfires s + 1\<rparr> else s)
                else (if oddBit \<noteq> inmPrevOdd s
                      then s\<lparr>inmOddMisfires := inmOddMisfires s + 1\<rparr> else s))
      in s1\<lparr>inmPrevEven := evenBit, inmPrevOdd := oddBit, inmTotalBits := inmTotalBits s1 + 1\<rparr>)"

text \<open>\<open>1 << inmN\<close> is a shift of an \<open>int\<close>: it is defined for \<open>inmN\<close> up to 30.\<close>

definition advanceContext :: "state \<Rightarrow> bool \<Rightarrow> error + state" where
  "advanceContext s bit' =
     (if unat (inmN s) > 30 then Inl Undefined
      else
        let shifted = push_bit 1 (inmPrevBits s) AND (push_bit (unat (inmN s)) 1 - 1);
            prevBits = (if inmPrevBit s then shifted OR 1 else shifted)
        in Inr (s\<lparr>inmPrevBits := prevBits, inmPrevBit := bit'\<rparr>))"

definition checkSequence :: "state \<Rightarrow> bool \<Rightarrow> error + state" where
  "checkSequence s bit' =
     (if unat (inmNumBitsSampled s) > 100 then
        (if bit' then
           let s1 = s\<lparr>inmTotalOnes := inmTotalOnes s + 1,
                      inmNumSequentialOnes := inmNumSequentialOnes s + 1,
                      inmNumSequentialZeros := 0\<rparr>
           in if unat (inmNumSequentialOnes s1) > INM_MAX_SEQUENCE
              then Inl (MaxSequenceExceeded True) else Inr s1
         else
           let s1 = s\<lparr>inmTotalZeros := inmTotalZeros s + 1,
                      inmNumSequentialZeros := inmNumSequentialZeros s + 1,
                      inmNumSequentialOnes := 0\<rparr>
           in if unat (inmNumSequentialZeros s1) > INM_MAX_SEQUENCE
              then Inl (MaxSequenceExceeded False) else Inr s1)
      else Inr s)"

text \<open>The counts of the current lane at the context, as the pair \<open>(zeros, ones)\<close>.\<close>

definition lookupCounts :: "state \<Rightarrow> bool \<Rightarrow> error + u32 \<times> u32" where
  "lookupCounts s even' =
     (if even'
      then andThen (rd (inmZerosEven s) (unat (inmPrevBits s))) (\<lambda>zeros.
           andThen (rd (inmOnesEven s) (unat (inmPrevBits s))) (\<lambda>ones. Inr (zeros, ones)))
      else andThen (rd (inmZerosOdd s) (unat (inmPrevBits s))) (\<lambda>zeros.
           andThen (rd (inmOnesOdd s) (unat (inmPrevBits s))) (\<lambda>ones. Inr (zeros, ones))))"

text \<open>
  \<open>total\<close> is a 32-bit sum. Where the count is not zero and the sum has wrapped to zero,
  the quotient is an infinity.
\<close>

definition updateProbability :: "state \<Rightarrow> bool \<Rightarrow> u32 \<Rightarrow> u32 \<Rightarrow> error + state" where
  "updateProbability s bit' zeros ones =
     (let total = zeros + ones;
          count = (if bit' then ones else zeros)
      in if count \<noteq> 0 then
           (if total = 0 then Inl NotFinite
            else Inr (s\<lparr>inmCurrentProbability :=
                        inmCurrentProbability s * (real (unat count) / real (unat total))\<rparr>))
         else Inr s)"

text \<open>One turn of the loop \<open>while(inmCurrentProbability <= 0.5)\<close>, and the loop.\<close>

definition emitStep :: "state \<Rightarrow> state" where
  "emitStep s =
     (let s1 = s\<lparr>inmCurrentProbability := inmCurrentProbability s * 2,
                inmNumBitsOfEntropy := inmNumBitsOfEntropy s + 1\<rparr>
      in if inmHealthCheckOkToUseData s1 \<and> unat (inmEntropyLevel s1) < INM_MAX_ENTROPY
         then s1\<lparr>inmEntropyLevel := inmEntropyLevel s1 + 1\<rparr>
         else s1)"

partial_function (option) emitEntropy :: "state \<Rightarrow> state option" where
  "emitEntropy s =
     (if inmCurrentProbability s \<le> 1 / 2 then emitEntropy (emitStep s) else Some s)"

declare emitEntropy.simps [code]

text \<open>The increment of the cell that matches the bit and the lane, with \<open>scaleStats\<close>
  when the cell reaches \<open>INM_MAX_COUNT\<close>.\<close>

definition bumpCell :: "table \<Rightarrow> nat \<Rightarrow> error + table \<times> bool" where
  "bumpCell t i =
     andThen (rd t i) (\<lambda>c.
     andThen (wr t i (c + 1)) (\<lambda>t'. Inr (t', unat (c + 1) = INM_MAX_COUNT)))"

definition countBit :: "state \<Rightarrow> bool \<Rightarrow> bool \<Rightarrow> error + state" where
  "countBit s bit' even' =
     andThen
       (if bit' then
          (if even'
           then andThen (bumpCell (inmOnesEven s) (unat (inmPrevBits s)))
                  (\<lambda>(t, full). Inr (s\<lparr>inmOnesEven := t\<rparr>, full))
           else andThen (bumpCell (inmOnesOdd s) (unat (inmPrevBits s)))
                  (\<lambda>(t, full). Inr (s\<lparr>inmOnesOdd := t\<rparr>, full)))
        else
          (if even'
           then andThen (bumpCell (inmZerosEven s) (unat (inmPrevBits s)))
                  (\<lambda>(t, full). Inr (s\<lparr>inmZerosEven := t\<rparr>, full))
           else andThen (bumpCell (inmZerosOdd s) (unat (inmPrevBits s)))
                  (\<lambda>(t, full). Inr (s\<lparr>inmZerosOdd := t\<rparr>, full))))
       (\<lambda>(s1, full). if full then scaleStats s1 else Inr s1)"

definition beforeLoop :: "state \<Rightarrow> bool \<Rightarrow> bool \<Rightarrow> bool \<Rightarrow> error + state" where
  "beforeLoop s evenBit oddBit even' =
     (let bit' = (if even' then evenBit else oddBit)
      in andThen (advanceContext (noteMisfire s evenBit oddBit even') bit') (\<lambda>s1.
         andThen (checkSequence s1 bit') (\<lambda>s2.
         andThen (lookupCounts s2 even') (\<lambda>(zeros, ones).
           updateProbability s2 bit' zeros ones))))"

definition afterLoop :: "state \<Rightarrow> bool \<Rightarrow> bool \<Rightarrow> bool \<Rightarrow> error + state" where
  "afterLoop s evenBit oddBit even' =
     (let bit' = (if even' then evenBit else oddBit)
      in andThen (countBit (s\<lparr>inmNumBitsSampled := inmNumBitsSampled s + 1\<rparr>) bit' even') (\<lambda>s1.
           Inr (scaleZeroOneCounts (scaleEntropy s1))))"

text \<open>
  The result is \<open>None\<close> when the loop does not end, \<open>Some (Inl e)\<close> when the call does not
  return (\<open>exit\<close>, or undefined behaviour) and \<open>Some (Inr s')\<close> when it returns \<open>true\<close> and
  leaves the state \<open>s'\<close>. There is no \<open>return false\<close> in the function.
\<close>

definition inmHealthCheckAddBit ::
  "state \<Rightarrow> bool \<Rightarrow> bool \<Rightarrow> bool \<Rightarrow> (error + state) option" where
  "inmHealthCheckAddBit s evenBit oddBit even' =
     (case beforeLoop s evenBit oddBit even' of
        Inl e \<Rightarrow> Some (Inl e)
      | Inr s1 \<Rightarrow>
          (case emitEntropy s1 of
             None \<Rightarrow> None
           | Some s2 \<Rightarrow> Some (afterLoop s2 evenBit oddBit even')))"

subsection \<open>Sequences of calls\<close>

datatype call = AddBit bool bool bool | ClearEntropyLevel

fun perform :: "state \<Rightarrow> call \<Rightarrow> (error + state) option" where
  "perform s (AddBit evenBit oddBit even') = inmHealthCheckAddBit s evenBit oddBit even'"
| "perform s ClearEntropyLevel = Some (Inr (inmClearEntropyLevel s))"

fun run :: "state \<Rightarrow> call list \<Rightarrow> (error + state) option" where
  "run s [] = Some (Inr s)"
| "run s (c # cs) =
     (case perform s c of
        Some (Inr s') \<Rightarrow> run s' cs
      | r \<Rightarrow> r)"

subsection \<open>Notions used to state the properties\<close>

text \<open>The bit that a call selects, and the selected bits of a sequence of calls.\<close>

fun bitsOf :: "call list \<Rightarrow> bool list" where
  "bitsOf [] = []"
| "bitsOf (AddBit evenBit oddBit even' # cs) = (if even' then evenBit else oddBit) # bitsOf cs"
| "bitsOf (ClearEntropyLevel # cs) = bitsOf cs"

text \<open>\<open>endsWithRun n b xs\<close>: the last \<open>n\<close> elements of \<open>xs\<close> exist and are all \<open>b\<close>.\<close>

definition endsWithRun :: "nat \<Rightarrow> bool \<Rightarrow> bool list \<Rightarrow> bool" where
  "endsWithRun n b xs = (n \<le> length xs \<and> list_all (\<lambda>x. x = b) (take n (rev xs)))"

text \<open>
  \<open>fatalAt pre b\<close>: after the bits \<open>pre\<close>, the bit \<open>b\<close> completes a run of
  \<open>INM_MAX_SEQUENCE + 1\<close> equal bits, not counting the first 101 bits of the stream.
\<close>

definition fatalAt :: "bool list \<Rightarrow> bool \<Rightarrow> bool" where
  "fatalAt pre b = endsWithRun (Suc INM_MAX_SEQUENCE) b (drop 101 (pre @ [b]))"

text \<open>The first bit of \<open>bs\<close> (coming after the bits \<open>pre\<close>) at which \<open>fatalAt\<close> holds.\<close>

fun firstFatal :: "bool list \<Rightarrow> bool list \<Rightarrow> bool option" where
  "firstFatal pre [] = None"
| "firstFatal pre (b # bs) = (if fatalAt pre b then Some b else firstFatal (pre @ [b]) bs)"

text \<open>The states of a started engine: the tables, the counters, the probability.\<close>

definition tableOk :: "nat \<Rightarrow> table \<Rightarrow> bool" where
  "tableOk n t =
     (case t of Block xs \<Rightarrow> length xs = n \<and> list_all (\<lambda>c. unat c < INM_MAX_COUNT) xs
              | _ \<Rightarrow> False)"

definition tablesOk :: "state \<Rightarrow> bool" where
  "tablesOk s =
     (1 \<le> unat (inmN s) \<and> unat (inmN s) \<le> 30
      \<and> tableOk (2 ^ unat (inmN s)) (inmOnesEven s)
      \<and> tableOk (2 ^ unat (inmN s)) (inmZerosEven s)
      \<and> tableOk (2 ^ unat (inmN s)) (inmOnesOdd s)
      \<and> tableOk (2 ^ unat (inmN s)) (inmZerosOdd s)
      \<and> unat (inmPrevBits s) < 2 ^ unat (inmN s))"

definition countersOk :: "state \<Rightarrow> bool" where
  "countersOk s =
     (unat (inmEntropyLevel s) \<le> INM_MAX_ENTROPY
      \<and> unat (inmNumBitsSampled s) < INM_MIN_DATA
      \<and> unat (inmNumSequentialOnes s) \<le> INM_MAX_SEQUENCE
      \<and> unat (inmNumSequentialZeros s) \<le> INM_MAX_SEQUENCE
      \<and> (inmTotalBits s \<noteq> 0 \<longrightarrow> inmNumBitsSampled s \<noteq> 0))"

definition wellFormed :: "state \<Rightarrow> bool" where
  "wellFormed s =
     (tablesOk s \<and> countersOk s
      \<and> 1 / 2 < inmCurrentProbability s \<and> inmCurrentProbability s \<le> 1)"

text \<open>The state in which the loop ends after \<open>k\<close> turns, with the entropy level \<open>l\<close>.\<close>

definition loopResult :: "state \<Rightarrow> nat \<Rightarrow> u32 \<Rightarrow> state" where
  "loopResult s k l = s\<lparr>inmCurrentProbability := inmCurrentProbability s * 2 ^ k,
                         inmNumBitsOfEntropy := inmNumBitsOfEntropy s + of_nat k,
                         inmEntropyLevel := l\<rparr>"

text \<open>The four tables, the one that a call counts in, and the cells of a table.\<close>

datatype which = OnesEven | ZerosEven | OnesOdd | ZerosOdd

fun tableOf :: "which \<Rightarrow> state \<Rightarrow> table" where
  "tableOf OnesEven s = inmOnesEven s"
| "tableOf ZerosEven s = inmZerosEven s"
| "tableOf OnesOdd s = inmOnesOdd s"
| "tableOf ZerosOdd s = inmZerosOdd s"

definition target :: "bool \<Rightarrow> bool \<Rightarrow> which" where
  "target bit' even' =
     (if bit' then (if even' then OnesEven else OnesOdd)
      else (if even' then ZerosEven else ZerosOdd))"

fun cells :: "table \<Rightarrow> u32 list" where
  "cells (Block xs) = xs"
| "cells Null = []"
| "cells Released = []"

text \<open>
  \<open>countedCells s i w tgt\<close>: the cells of table \<open>w\<close> after a call that counts a bit in
  cell \<open>i\<close> of table \<open>tgt\<close>, starting from the tables of \<open>s\<close>: the cell is incremented, and
  if it has then reached \<open>INM_MAX_COUNT\<close> every cell of every table is halved.
\<close>

definition countedCells :: "state \<Rightarrow> nat \<Rightarrow> which \<Rightarrow> which \<Rightarrow> u32 list" where
  "countedCells s i tgt w =
     (let xs = cells (tableOf w s);
          ys = (if w = tgt then xs[i := xs ! i + 1] else xs)
      in if unat (cells (tableOf tgt s) ! i + 1) = INM_MAX_COUNT
         then map (\<lambda>c. c div 2) ys else ys)"

text \<open>
  The run counters after \<open>checkSequence\<close> has counted the bit \<open>b\<close>, and the condition
  under which it calls \<open>exit\<close> instead.
\<close>

definition counted :: "state \<Rightarrow> bool \<Rightarrow> state" where
  "counted s b =
     (if unat (inmNumBitsSampled s) > 100 then
        (if b then s\<lparr>inmTotalOnes := inmTotalOnes s + 1,
                     inmNumSequentialOnes := inmNumSequentialOnes s + 1,
                     inmNumSequentialZeros := 0\<rparr>
         else s\<lparr>inmTotalZeros := inmTotalZeros s + 1,
                 inmNumSequentialZeros := inmNumSequentialZeros s + 1,
                 inmNumSequentialOnes := 0\<rparr>)
      else s)"

definition runFull :: "state \<Rightarrow> bool \<Rightarrow> bool" where
  "runFull s b =
     (unat (inmNumBitsSampled s) > 100
      \<and> unat (if b then inmNumSequentialOnes s else inmNumSequentialZeros s) = INM_MAX_SEQUENCE)"

text \<open>The state after \<open>countBit\<close>, for the target table \<open>tgt\<close>.\<close>

definition tallied :: "state \<Rightarrow> which \<Rightarrow> state" where
  "tallied s tgt =
     s\<lparr>inmOnesEven := Block (countedCells s (unat (inmPrevBits s)) tgt OnesEven),
       inmZerosEven := Block (countedCells s (unat (inmPrevBits s)) tgt ZerosEven),
       inmOnesOdd := Block (countedCells s (unat (inmPrevBits s)) tgt OnesOdd),
       inmZerosOdd := Block (countedCells s (unat (inmPrevBits s)) tgt ZerosOdd)\<rparr>"

text \<open>
  The state that a call of \<open>inmHealthCheckAddBit\<close> leaves when it returns, given the
  context \<open>c\<close> it has computed, the probability \<open>q\<close> before the loop, the number \<open>k\<close> of
  turns of the loop and the entropy level \<open>l\<close> after it.
\<close>

definition selectedBit :: "bool \<Rightarrow> bool \<Rightarrow> bool \<Rightarrow> bool" where
  "selectedBit evenBit oddBit even' = (if even' then evenBit else oddBit)"

definition entering :: "state \<Rightarrow> bool \<Rightarrow> bool \<Rightarrow> bool \<Rightarrow> u32 \<Rightarrow> real \<Rightarrow> state" where
  "entering s evenBit oddBit even' c q =
     (counted ((noteMisfire s evenBit oddBit even')
                 \<lparr>inmPrevBits := c, inmPrevBit := selectedBit evenBit oddBit even'\<rparr>)
        (selectedBit evenBit oddBit even'))\<lparr>inmCurrentProbability := q\<rparr>"

definition leaving :: "state \<Rightarrow> bool \<Rightarrow> bool \<Rightarrow> bool \<Rightarrow> state" where
  "leaving s evenBit oddBit even' =
     scaleZeroOneCounts (scaleEntropy
       (tallied (s\<lparr>inmNumBitsSampled := inmNumBitsSampled s + 1\<rparr>)
          (target (selectedBit evenBit oddBit even') even')))"

definition outcome ::
  "state \<Rightarrow> bool \<Rightarrow> bool \<Rightarrow> bool \<Rightarrow> u32 \<Rightarrow> real \<Rightarrow> nat \<Rightarrow> u32 \<Rightarrow> state" where
  "outcome s evenBit oddBit even' c q k l =
     leaving (loopResult (entering s evenBit oddBit even' c q) k l) evenBit oddBit even'"

text \<open>
  What the counters are after the calls that selected the bits \<open>bits\<close>:
  \<open>inmNumBitsSampled\<close> counts up to \<open>INM_MIN_DATA\<close> and is halved there, and the two
  run counters hold the length of the run that ends the stream, the first 101 bits not
  counted.
\<close>

definition sampledAfter :: "nat \<Rightarrow> nat" where
  "sampledAfter n = (if n < 80000 then n else 40000 + n mod 40000)"

definition trailing :: "bool \<Rightarrow> bool list \<Rightarrow> nat" where
  "trailing b xs = length (takeWhile (\<lambda>x. x = b) (rev xs))"

definition follows :: "state \<Rightarrow> bool list \<Rightarrow> bool" where
  "follows s bits =
     (inmTotalBits s = of_nat (length bits)
      \<and> unat (inmNumBitsSampled s) = sampledAfter (length bits)
      \<and> unat (inmNumSequentialOnes s) = trailing True (drop 101 bits)
      \<and> unat (inmNumSequentialZeros s) = trailing False (drop 101 bits))"

text \<open>
  An engine for the examples: width 1, gain 2, every allocation succeeding. \<open>demo\<close> is
  the state that \<open>inmHealthCheckStart\<close> then leaves.
\<close>

definition allocating :: "nat \<Rightarrow> bool" where
  "allocating i = True"

definition demo :: state where
  "demo = \<lparr> inmN = 1, inmPrevBits = 0, inmNumBitsSampled = 0,
     inmOnesEven = Block [0, 0], inmZerosEven = Block [0, 0],
     inmOnesOdd = Block [0, 0], inmZerosOdd = Block [0, 0],
     inmK = 2, inmExpectedEntropyPerBit = 1, inmNumBitsOfEntropy = 0,
     inmCurrentProbability = 1, inmTotalBits = 0, inmPrevBit = False,
     inmEntropyLevel = 0, inmNumSequentialZeros = 0, inmNumSequentialOnes = 0,
     inmTotalOnes = 0, inmTotalZeros = 0, inmEvenMisfires = 0, inmOddMisfires = 0,
     inmPrevEven = False, inmPrevOdd = False, inmDebug = False \<rparr>"

text \<open>Three calls on \<open>demo\<close> and the state they leave.\<close>

definition demoCalls :: "call list" where
  "demoCalls = [AddBit True False True, AddBit True True False, AddBit False True True]"

definition demoAfter :: state where
  "demoAfter = \<lparr> inmN = 1, inmPrevBits = 1, inmNumBitsSampled = 3,
     inmOnesEven = Block [1, 0], inmZerosEven = Block [0, 1],
     inmOnesOdd = Block [0, 1], inmZerosOdd = Block [0, 0],
     inmK = 2, inmExpectedEntropyPerBit = 1, inmNumBitsOfEntropy = 0,
     inmCurrentProbability = 1, inmTotalBits = 3, inmPrevBit = False,
     inmEntropyLevel = 0, inmNumSequentialZeros = 0, inmNumSequentialOnes = 0,
     inmTotalOnes = 0, inmTotalZeros = 0, inmEvenMisfires = 2, inmOddMisfires = 1,
     inmPrevEven = False, inmPrevOdd = True, inmDebug = False \<rparr>"

text \<open>The state that the first call of \<open>demoCalls\<close> leaves.\<close>

definition demoFirst :: state where
  "demoFirst = demo\<lparr>inmPrevEven := True, inmTotalBits := 1, inmPrevBit := True,
     inmNumBitsSampled := 1, inmOnesEven := Block [1, 0], inmEvenMisfires := 1\<rparr>"

text \<open>Whether a call, or a sequence of calls, has returned.\<close>

definition returned :: "(error + state) option \<Rightarrow> bool" where
  "returned r = (case r of Some (Inr s) \<Rightarrow> True | _ \<Rightarrow> False)"

section \<open>Properties\<close>

subsection \<open>The steps before the loop\<close>

lemma andThen_Inr [simp]: "andThen (Inr x) f = f x"
  by (simp add: andThen_def)

lemma andThen_Inl [simp]: "andThen (Inl e) f = Inl e"
  by (simp add: andThen_def)

lemma context_mask: "(push_bit n 1 - 1 :: u32) = mask n"
  by (simp add: mask_eq_decr_exp)

lemma masked_bound: "unat ((w :: u32) AND mask n) < 2 ^ n"
  by (simp flip: take_bit_eq_mask add: unsigned_take_bit_eq)

lemma context_bound:
  fixes x :: u32
  assumes "1 \<le> n"
  shows "unat (x AND mask n) < 2 ^ n" "unat ((x AND mask n) OR 1) < 2 ^ n"
proof -
  show "unat (x AND mask n) < 2 ^ n"
    by (rule masked_bound)
  have eq: "(x AND mask n) OR 1 = (x OR 1) AND mask n"
    using assms by (intro bit_eqI) (auto simp: bit_and_iff bit_or_iff bit_mask_iff bit_1_iff)
  show "unat ((x AND mask n) OR 1) < 2 ^ n"
    unfolding eq by (rule masked_bound)
qed

lemma advanceContext_ok:
  assumes "1 \<le> unat (inmN s)" "unat (inmN s) \<le> 30"
  shows "\<exists>c. advanceContext s b = Inr (s\<lparr>inmPrevBits := c, inmPrevBit := b\<rparr>) \<and> unat c < 2 ^ unat (inmN s)"
proof -
  let ?sh = "push_bit 1 (inmPrevBits s) AND mask (unat (inmN s))"
  let ?c = "if inmPrevBit s then ?sh OR 1 else ?sh"
  have "advanceContext s b = Inr (s\<lparr>inmPrevBits := ?c, inmPrevBit := b\<rparr>)"
    using assms(2) unfolding advanceContext_def Let_def context_mask by simp
  moreover have "unat ?c < 2 ^ unat (inmN s)"
    using context_bound[OF assms(1)] by simp
  ultimately show ?thesis by blast
qed

lemma rd_ok: "tableOk n t \<Longrightarrow> i < n \<Longrightarrow> \<exists>c. rd t i = Inr c \<and> unat c < INM_MAX_COUNT"
  by (auto simp: tableOk_def rd_def list_all_length split: table.splits)

lemma lookupCounts_ok:
  assumes "tablesOk s"
  shows "\<exists>z n. lookupCounts s ev = Inr (z, n) \<and> unat z < INM_MAX_COUNT \<and> unat n < INM_MAX_COUNT"
proof -
  let ?i = "unat (inmPrevBits s)"
  from assms have i: "?i < 2 ^ unat (inmN s)" by (simp add: tablesOk_def)
  from assms have t: "tableOk (2 ^ unat (inmN s)) (inmZerosEven s)"
    "tableOk (2 ^ unat (inmN s)) (inmOnesEven s)"
    "tableOk (2 ^ unat (inmN s)) (inmZerosOdd s)"
    "tableOk (2 ^ unat (inmN s)) (inmOnesOdd s)"
    by (simp_all add: tablesOk_def)
  obtain ze where ze: "rd (inmZerosEven s) ?i = Inr ze" "unat ze < INM_MAX_COUNT"
    using rd_ok[OF t(1) i] by blast
  obtain oe where oe: "rd (inmOnesEven s) ?i = Inr oe" "unat oe < INM_MAX_COUNT"
    using rd_ok[OF t(2) i] by blast
  obtain zd where zd: "rd (inmZerosOdd s) ?i = Inr zd" "unat zd < INM_MAX_COUNT"
    using rd_ok[OF t(3) i] by blast
  obtain od where od: "rd (inmOnesOdd s) ?i = Inr od" "unat od < INM_MAX_COUNT"
    using rd_ok[OF t(4) i] by blast
  show ?thesis using ze oe zd od by (simp add: lookupCounts_def)
qed

lemma ratio_bounds:
  fixes c t :: nat
  assumes "0 < c" "c \<le> t"
  shows "0 < real c / real t" "real c / real t \<le> 1"
  using assms by simp_all

lemma scaled_probability:
  fixes p r :: real
  assumes "0 < p" "0 < r" "r \<le> 1"
  shows "0 < p * r" "p * r \<le> p"
  using assms by (simp_all add: mult_left_le)

lemma updateProbability_ok:
  assumes "unat z < INM_MAX_COUNT" "unat n < INM_MAX_COUNT" "0 < inmCurrentProbability s"
  shows "\<exists>q. updateProbability s b z n = Inr (s\<lparr>inmCurrentProbability := q\<rparr>)
           \<and> 0 < q \<and> q \<le> inmCurrentProbability s"
proof -
  define c where "c = (if b then n else z)"
  have sum: "unat (z + n) = unat z + unat n"
    using assms(1,2) by (simp add: unat_add_lem[THEN iffD1] INM_MAX_COUNT_def)
  show ?thesis
  proof (cases "c = 0")
    case True
    then have "updateProbability s b z n = Inr s"
      by (simp add: updateProbability_def Let_def c_def)
    then have "updateProbability s b z n = Inr (s\<lparr>inmCurrentProbability := inmCurrentProbability s\<rparr>)"
      by simp
    with assms(3) show ?thesis by blast
  next
    case False
    then have pos: "0 < unat c" by (simp add: unat_gt_0)
    have le: "unat c \<le> unat (z + n)" using sum by (simp add: c_def)
    with pos have tpos: "0 < unat (z + n)" by linarith
    then have tne: "z + n \<noteq> 0" by (simp add: unat_gt_0)
    define r where "r = real (unat c) / real (unat (z + n))"
    have r: "0 < r" "r \<le> 1" unfolding r_def using ratio_bounds[OF pos le] .
    have "updateProbability s b z n = Inr (s\<lparr>inmCurrentProbability := inmCurrentProbability s * r\<rparr>)"
      using False tne unfolding updateProbability_def Let_def r_def c_def by simp
    with scaled_probability[OF assms(3) r] show ?thesis by blast
  qed
qed


subsection \<open>The loop\<close>

lemma okToUseData_fields:
  assumes "inmNumBitsOfEntropy t = inmNumBitsOfEntropy s" "inmNumBitsSampled t = inmNumBitsSampled s"
    "inmTotalBits t = inmTotalBits s" "inmExpectedEntropyPerBit t = inmExpectedEntropyPerBit s"
  shows "inmHealthCheckOkToUseData t = inmHealthCheckOkToUseData s"
  using assms by (simp add: inmHealthCheckOkToUseData_def inmHealthCheckEstimateEntropyPerBit_def)

lemma emitStep_eq:
  "\<exists>l. emitStep s = s\<lparr>inmCurrentProbability := inmCurrentProbability s * 2,
                         inmNumBitsOfEntropy := inmNumBitsOfEntropy s + 1,
                         inmEntropyLevel := l\<rparr>
       \<and> unat (inmEntropyLevel s) \<le> unat l
       \<and> (unat (inmEntropyLevel s) \<le> INM_MAX_ENTROPY \<longrightarrow> unat l \<le> INM_MAX_ENTROPY)
       \<and> (l \<noteq> inmEntropyLevel s \<longrightarrow>
            l = inmEntropyLevel s + 1 \<and> unat (inmEntropyLevel s) < INM_MAX_ENTROPY \<and>
            inmHealthCheckOkToUseData (s\<lparr>inmNumBitsOfEntropy := inmNumBitsOfEntropy s + 1\<rparr>))"
proof -
  let ?s1 = "s\<lparr>inmCurrentProbability := inmCurrentProbability s * 2,
               inmNumBitsOfEntropy := inmNumBitsOfEntropy s + 1\<rparr>"
  have ok: "inmHealthCheckOkToUseData ?s1
      = inmHealthCheckOkToUseData (s\<lparr>inmNumBitsOfEntropy := inmNumBitsOfEntropy s + 1\<rparr>)"
    by (rule okToUseData_fields) simp_all
  show ?thesis
  proof (cases "inmHealthCheckOkToUseData ?s1 \<and> unat (inmEntropyLevel s) < INM_MAX_ENTROPY")
    case True
    then have lt: "unat (inmEntropyLevel s) < 1600" by (simp add: INM_MAX_ENTROPY_def)
    then have u: "unat (inmEntropyLevel s + 1) = unat (inmEntropyLevel s) + 1"
      by (simp add: unat_add_lem[THEN iffD1])
    have "emitStep s = ?s1\<lparr>inmEntropyLevel := inmEntropyLevel s + 1\<rparr>"
      using True by (simp add: emitStep_def Let_def)
    with True ok u lt show ?thesis
      by (intro exI[of _ "inmEntropyLevel s + 1"]) (simp add: INM_MAX_ENTROPY_def)
  next
    case False
    then have "emitStep s = ?s1\<lparr>inmEntropyLevel := inmEntropyLevel s\<rparr>"
      by (auto simp add: emitStep_def Let_def)
    then show ?thesis
      by (intro exI[of _ "inmEntropyLevel s"]) simp
  qed
qed

lemma emitEntropy_stop:
  assumes "1 / 2 < inmCurrentProbability s"
  shows "emitEntropy s = Some (loopResult s 0 (inmEntropyLevel s))"
  using assms by (subst emitEntropy.simps) (simp add: loopResult_def)

lemma emitEntropy_runs:
  assumes "0 < inmCurrentProbability s" "1 / 2 < inmCurrentProbability s * 2 ^ n"
  shows "\<exists>k l. emitEntropy s = Some (loopResult s k l)
           \<and> 1 / 2 < inmCurrentProbability s * 2 ^ k
           \<and> (\<forall>j<k. inmCurrentProbability s * 2 ^ j \<le> 1 / 2)
           \<and> unat (inmEntropyLevel s) \<le> unat l
           \<and> (unat (inmEntropyLevel s) \<le> INM_MAX_ENTROPY \<longrightarrow> unat l \<le> INM_MAX_ENTROPY)
           \<and> (l \<noteq> inmEntropyLevel s \<longrightarrow>
                (\<exists>j<k. inmHealthCheckOkToUseData
                          (s\<lparr>inmNumBitsOfEntropy := inmNumBitsOfEntropy s + of_nat (Suc j)\<rparr>)))"
  using assms
proof (induction n arbitrary: s)
  case 0
  then have "1 / 2 < inmCurrentProbability s" by simp
  from emitEntropy_stop[OF this] this show ?case
    by (intro exI[of _ 0] exI[of _ "inmEntropyLevel s"]) simp
next
  case (Suc n)
  show ?case
  proof (cases "1 / 2 < inmCurrentProbability s")
    case True
    from emitEntropy_stop[OF this] this show ?thesis
      by (intro exI[of _ 0] exI[of _ "inmEntropyLevel s"]) simp
  next
    case False
    then have small: "inmCurrentProbability s \<le> 1 / 2" by simp
    obtain l1 where s1: "emitStep s = s\<lparr>inmCurrentProbability := inmCurrentProbability s * 2,
                         inmNumBitsOfEntropy := inmNumBitsOfEntropy s + 1,
                         inmEntropyLevel := l1\<rparr>"
      and l1: "unat (inmEntropyLevel s) \<le> unat l1"
        "unat (inmEntropyLevel s) \<le> INM_MAX_ENTROPY \<longrightarrow> unat l1 \<le> INM_MAX_ENTROPY"
        "l1 \<noteq> inmEntropyLevel s \<longrightarrow>
            inmHealthCheckOkToUseData (s\<lparr>inmNumBitsOfEntropy := inmNumBitsOfEntropy s + 1\<rparr>)"
      using emitStep_eq[of s] by blast
    let ?s1 = "emitStep s"
    have p1: "inmCurrentProbability ?s1 = inmCurrentProbability s * 2" by (simp add: s1)
    have e1: "inmNumBitsOfEntropy ?s1 = inmNumBitsOfEntropy s + 1" by (simp add: s1)
    have lv1: "inmEntropyLevel ?s1 = l1" by (simp add: s1)
    have "0 < inmCurrentProbability ?s1" using Suc.prems(1) by (simp add: p1)
    moreover have "1 / 2 < inmCurrentProbability ?s1 * 2 ^ n"
      using Suc.prems(2) by (simp add: p1 mult.assoc)
    ultimately obtain k l where
      r: "emitEntropy ?s1 = Some (loopResult ?s1 k l)"
      and big: "1 / 2 < inmCurrentProbability ?s1 * 2 ^ k"
      and le: "\<forall>j<k. inmCurrentProbability ?s1 * 2 ^ j \<le> 1 / 2"
      and mono: "unat (inmEntropyLevel ?s1) \<le> unat l"
      and cap: "unat (inmEntropyLevel ?s1) \<le> INM_MAX_ENTROPY \<longrightarrow> unat l \<le> INM_MAX_ENTROPY"
      and gate: "l \<noteq> inmEntropyLevel ?s1 \<longrightarrow>
                (\<exists>j<k. inmHealthCheckOkToUseData
                          (?s1\<lparr>inmNumBitsOfEntropy := inmNumBitsOfEntropy ?s1 + of_nat (Suc j)\<rparr>))"
      using Suc.IH[of ?s1] by blast
    have res: "loopResult ?s1 k l = loopResult s (Suc k) l"
      by (simp add: loopResult_def s1 mult.assoc add.assoc)
    have run: "emitEntropy s = Some (loopResult s (Suc k) l)"
      using small r res by (subst emitEntropy.simps) simp
    have big': "1 / 2 < inmCurrentProbability s * 2 ^ Suc k"
      using big by (simp add: p1 mult.assoc)
    have le': "\<forall>j<Suc k. inmCurrentProbability s * 2 ^ j \<le> 1 / 2"
    proof (intro allI impI)
      fix j assume j: "j < Suc k"
      show "inmCurrentProbability s * 2 ^ j \<le> 1 / 2"
      proof (cases j)
        case 0
        then show ?thesis using small by simp
      next
        case (Suc i)
        then have "i < k" using j by simp
        with le have "inmCurrentProbability ?s1 * 2 ^ i \<le> 1 / 2" by blast
        then show ?thesis by (simp add: Suc p1 mult.assoc)
      qed
    qed
    have mono': "unat (inmEntropyLevel s) \<le> unat l" using l1(1) mono lv1 by simp
    have cap': "unat (inmEntropyLevel s) \<le> INM_MAX_ENTROPY \<longrightarrow> unat l \<le> INM_MAX_ENTROPY"
      using l1(2) cap lv1 by simp
    have gate': "l \<noteq> inmEntropyLevel s \<longrightarrow>
                (\<exists>j<Suc k. inmHealthCheckOkToUseData
                          (s\<lparr>inmNumBitsOfEntropy := inmNumBitsOfEntropy s + of_nat (Suc j)\<rparr>))"
    proof
      assume ne: "l \<noteq> inmEntropyLevel s"
      show "\<exists>j<Suc k. inmHealthCheckOkToUseData
                          (s\<lparr>inmNumBitsOfEntropy := inmNumBitsOfEntropy s + of_nat (Suc j)\<rparr>)"
      proof (cases "l1 = inmEntropyLevel s")
        case True
        with ne lv1 gate obtain j where j: "j < k"
          "inmHealthCheckOkToUseData
             (?s1\<lparr>inmNumBitsOfEntropy := inmNumBitsOfEntropy ?s1 + of_nat (Suc j)\<rparr>)"
          by auto
        have "inmHealthCheckOkToUseData
               (s\<lparr>inmNumBitsOfEntropy := inmNumBitsOfEntropy s + of_nat (Suc (Suc j))\<rparr>)
            = inmHealthCheckOkToUseData
               (?s1\<lparr>inmNumBitsOfEntropy := inmNumBitsOfEntropy ?s1 + of_nat (Suc j)\<rparr>)"
          by (rule okToUseData_fields) (simp_all add: s1 add.assoc)
        with j show ?thesis by (intro exI[of _ "Suc j"]) simp
      next
        case False
        with l1(3) show ?thesis by (intro exI[of _ 0]) simp
      qed
    qed
    from run big' le' mono' cap' gate' show ?thesis by blast
  qed
qed

lemma power_two_reaches:
  fixes p :: real
  assumes "0 < p"
  shows "\<exists>n. 1 / 2 < p * 2 ^ n"
proof -
  obtain n where "1 / (2 * p) < 2 ^ n"
    using real_arch_pow[of 2 "1 / (2 * p)"] by auto
  then have "1 / 2 < p * 2 ^ n" using assms by (simp add: field_simps)
  then show ?thesis ..
qed


subsection \<open>The tables\<close>

lemma halveCells_all: "halveCells (length xs) xs = Some (map (\<lambda>c. c div 2) xs)"
  by (induction xs) (simp_all add: drop_bit_eq_div)

lemma halveTable_ok:
  assumes "tableOk n t"
  shows "halveTable n t = Inr (Block (map (\<lambda>c. c div 2) (cells t)))"
  using assms halveCells_all[of "cells t"]
  by (auto simp: tableOk_def halveTable_def split: table.splits)

lemma half_below:
  fixes c :: u32
  assumes "unat c \<le> INM_MAX_COUNT"
  shows "unat (c div 2) < INM_MAX_COUNT"
proof -
  have "unat (c div 2) = unat c div 2" by (simp add: unat_div)
  with assms show ?thesis by (simp add: INM_MAX_COUNT_def)
qed

lemma bump_value:
  fixes c :: u32
  assumes "unat c < INM_MAX_COUNT"
  shows "unat (c + 1) = Suc (unat c)"
  using assms by (simp add: unat_add_lem[THEN iffD1] INM_MAX_COUNT_def)

lemma bumpCell_ok:
  assumes "tableOk n t" "i < n"
  shows "bumpCell t i = Inr (Block ((cells t)[i := cells t ! i + 1]),
                             unat (cells t ! i + 1) = INM_MAX_COUNT)"
  using assms by (auto simp: tableOk_def bumpCell_def rd_def wr_def split: table.splits)

lemma tableOk_Block:
  assumes "tableOk n t"
  obtains xs where "t = Block xs" "length xs = n" "list_all (\<lambda>c. unat c < INM_MAX_COUNT) xs"
  using assms by (auto simp: tableOk_def split: table.splits)

lemma halveTable_Block:
  "halveTable (length xs) (Block xs) = Inr (Block (map (\<lambda>c. c div 2) xs))"
  by (simp add: halveTable_def halveCells_all)

lemma scaleStats_Block:
  assumes "unat (inmN s) \<le> 30"
    "inmOnesEven s = Block oe" "inmZerosEven s = Block ze"
    "inmOnesOdd s = Block od" "inmZerosOdd s = Block zd"
    "length oe = 2 ^ unat (inmN s)" "length ze = 2 ^ unat (inmN s)"
    "length od = 2 ^ unat (inmN s)" "length zd = 2 ^ unat (inmN s)"
  shows "scaleStats s = Inr (s\<lparr>inmZerosEven := Block (map (\<lambda>c. c div 2) ze),
                               inmOnesEven := Block (map (\<lambda>c. c div 2) oe),
                               inmZerosOdd := Block (map (\<lambda>c. c div 2) zd),
                               inmOnesOdd := Block (map (\<lambda>c. c div 2) od)\<rparr>)"
proof -
  have "halveTable (2 ^ unat (inmN s)) (inmOnesEven s) = Inr (Block (map (\<lambda>c. c div 2) oe))"
    "halveTable (2 ^ unat (inmN s)) (inmZerosEven s) = Inr (Block (map (\<lambda>c. c div 2) ze))"
    "halveTable (2 ^ unat (inmN s)) (inmOnesOdd s) = Inr (Block (map (\<lambda>c. c div 2) od))"
    "halveTable (2 ^ unat (inmN s)) (inmZerosOdd s) = Inr (Block (map (\<lambda>c. c div 2) zd))"
    using assms halveTable_Block[of oe] halveTable_Block[of ze] halveTable_Block[of od]
      halveTable_Block[of zd] by simp_all
  then show ?thesis using assms(1) by (simp add: scaleStats_def)
qed

lemma countBit_ok:
  assumes "tablesOk s"
  shows "countBit s b ev = Inr (tallied s (target b ev))"
proof -
  let ?n = "2 ^ unat (inmN s) :: nat"
  let ?i = "unat (inmPrevBits s)"
  from assms have N: "unat (inmN s) \<le> 30" and i: "?i < ?n"
    and ok: "tableOk ?n (inmOnesEven s)" "tableOk ?n (inmZerosEven s)"
      "tableOk ?n (inmOnesOdd s)" "tableOk ?n (inmZerosOdd s)"
    by (simp_all add: tablesOk_def)
  from ok(1) obtain oe where oe: "inmOnesEven s = Block oe" "length oe = ?n"
    by (rule tableOk_Block)
  from ok(2) obtain ze where ze: "inmZerosEven s = Block ze" "length ze = ?n"
    by (rule tableOk_Block)
  from ok(3) obtain od where od: "inmOnesOdd s = Block od" "length od = ?n"
    by (rule tableOk_Block)
  from ok(4) obtain zd where zd: "inmZerosOdd s = Block zd" "length zd = ?n"
    by (rule tableOk_Block)
  note bump = bumpCell_ok[OF ok(1) i] bumpCell_ok[OF ok(2) i] bumpCell_ok[OF ok(3) i]
    bumpCell_ok[OF ok(4) i]
  show ?thesis
  proof (cases b; cases ev)
    assume "b" "ev"
    then show ?thesis
      using bump N oe ze od zd
      by (cases s) (simp add: countBit_def tallied_def target_def countedCells_def scaleStats_Block)
  next
    assume "b" "\<not> ev"
    then show ?thesis
      using bump N oe ze od zd
      by (cases s) (simp add: countBit_def tallied_def target_def countedCells_def scaleStats_Block)
  next
    assume "\<not> b" "ev"
    then show ?thesis
      using bump N oe ze od zd
      by (cases s) (simp add: countBit_def tallied_def target_def countedCells_def scaleStats_Block)
  next
    assume "\<not> b" "\<not> ev"
    then show ?thesis
      using bump N oe ze od zd
      by (cases s) (simp add: countBit_def tallied_def target_def countedCells_def scaleStats_Block)
  qed
qed


lemma list_all_update:
  assumes "list_all P xs" "P v"
  shows "list_all P (xs[i := v])"
  using assms set_update_subset_insert[of xs i v] by (auto simp: list_all_iff)

lemma countedCells_ok:
  assumes "tablesOk s" "i < 2 ^ unat (inmN s)"
  shows "tableOk (2 ^ unat (inmN s)) (Block (countedCells s i tgt w))"
proof -
  let ?n = "2 ^ unat (inmN s) :: nat"
  have all: "tableOk ?n (tableOf v s)" for v
    using assms(1) by (cases v) (simp_all add: tablesOk_def)
  obtain xs where xs: "tableOf w s = Block xs" "length xs = ?n"
    "list_all (\<lambda>c. unat c < INM_MAX_COUNT) xs"
    using all[of w] by (rule tableOk_Block)
  obtain ts where ts: "tableOf tgt s = Block ts" "length ts = ?n"
    "list_all (\<lambda>c. unat c < INM_MAX_COUNT) ts"
    using all[of tgt] by (rule tableOk_Block)
  have cell: "unat (ts ! i) < INM_MAX_COUNT"
    using ts assms(2) by (simp add: list_all_length)
  have suc: "unat (ts ! i + 1) = Suc (unat (ts ! i))"
    by (rule bump_value[OF cell])
  define ys where "ys = (if w = tgt then xs[i := xs ! i + 1] else xs)"
  have len: "length ys = ?n" using xs(2) by (simp add: ys_def)
  have weak: "list_all (\<lambda>c. unat c \<le> INM_MAX_COUNT) xs"
    using xs(3) by (auto simp: list_all_iff intro: less_imp_le)
  have le: "list_all (\<lambda>c. unat c \<le> INM_MAX_COUNT) ys"
  proof (cases "w = tgt")
    case True
    then have "xs = ts" using xs(1) ts(1) by simp
    then have "unat (xs ! i + 1) \<le> INM_MAX_COUNT" using suc cell by simp
    with weak show ?thesis unfolding ys_def using True by (simp add: list_all_update)
  next
    case False
    with weak show ?thesis by (simp add: ys_def)
  qed
  have cc: "countedCells s i tgt w =
      (if unat (ts ! i + 1) = INM_MAX_COUNT then map (\<lambda>c. c div 2) ys else ys)"
    by (simp add: countedCells_def Let_def xs(1) ts(1) ys_def)
  show ?thesis
  proof (cases "unat (ts ! i + 1) = INM_MAX_COUNT")
    case True
    have "list_all (\<lambda>c. unat c < INM_MAX_COUNT) (map (\<lambda>c. c div 2) ys)"
      using le by (auto simp: list_all_iff intro: half_below)
    with True len show ?thesis by (simp add: cc tableOk_def)
  next
    case False
    have "list_all (\<lambda>c. unat c < INM_MAX_COUNT) ys"
    proof (cases "w = tgt")
      case True
      then have eq: "xs = ts" using xs(1) ts(1) by simp
      have "unat (xs ! i + 1) < INM_MAX_COUNT" using suc cell False by (simp add: eq)
      with xs(3) show ?thesis unfolding ys_def using True by (simp add: list_all_update)
    next
      case False
      with xs(3) show ?thesis by (simp add: ys_def)
    qed
    with False len show ?thesis by (simp add: cc tableOk_def)
  qed
qed

lemma tallied_tablesOk:
  assumes "tablesOk s"
  shows "tablesOk (tallied s tgt)"
proof -
  from assms have i: "unat (inmPrevBits s) < 2 ^ unat (inmN s)" by (simp add: tablesOk_def)
  show ?thesis
    using assms countedCells_ok[OF assms i] by (simp add: tablesOk_def tallied_def)
qed

lemma checkSequence_eq:
  assumes "unat (inmNumSequentialOnes s) \<le> INM_MAX_SEQUENCE"
    "unat (inmNumSequentialZeros s) \<le> INM_MAX_SEQUENCE"
  shows "checkSequence s b =
           (if runFull s b then Inl (MaxSequenceExceeded b) else Inr (counted s b))"
proof -
  have "unat (inmNumSequentialOnes s + 1) = Suc (unat (inmNumSequentialOnes s))"
    "unat (inmNumSequentialZeros s + 1) = Suc (unat (inmNumSequentialZeros s))"
    using assms by (simp_all add: unat_add_lem[THEN iffD1] INM_MAX_SEQUENCE_def)
  with assms show ?thesis
    by (auto simp: checkSequence_def counted_def runFull_def Let_def)
qed

lemma counted_counters:
  assumes "unat (inmNumSequentialOnes s) \<le> INM_MAX_SEQUENCE"
    "unat (inmNumSequentialZeros s) \<le> INM_MAX_SEQUENCE" "\<not> runFull s b"
  shows "unat (inmNumSequentialOnes (counted s b)) \<le> INM_MAX_SEQUENCE"
    "unat (inmNumSequentialZeros (counted s b)) \<le> INM_MAX_SEQUENCE"
proof -
  have "unat (inmNumSequentialOnes s + 1) = Suc (unat (inmNumSequentialOnes s))"
    "unat (inmNumSequentialZeros s + 1) = Suc (unat (inmNumSequentialZeros s))"
    using assms by (simp_all add: unat_add_lem[THEN iffD1] INM_MAX_SEQUENCE_def)
  with assms show "unat (inmNumSequentialOnes (counted s b)) \<le> INM_MAX_SEQUENCE"
    "unat (inmNumSequentialZeros (counted s b)) \<le> INM_MAX_SEQUENCE"
    by (auto simp: counted_def runFull_def)
qed


subsection \<open>One call, step by step\<close>

lemma tablesOk_fields:
  assumes "inmN t = inmN s" "inmOnesEven t = inmOnesEven s" "inmZerosEven t = inmZerosEven s"
    "inmOnesOdd t = inmOnesOdd s" "inmZerosOdd t = inmZerosOdd s" "inmPrevBits t = inmPrevBits s"
  shows "tablesOk t = tablesOk s"
  using assms by (simp add: tablesOk_def)

lemma noteMisfire_fields:
  "inmN (noteMisfire s eb ob ev) = inmN s"
  "inmOnesEven (noteMisfire s eb ob ev) = inmOnesEven s"
  "inmZerosEven (noteMisfire s eb ob ev) = inmZerosEven s"
  "inmOnesOdd (noteMisfire s eb ob ev) = inmOnesOdd s"
  "inmZerosOdd (noteMisfire s eb ob ev) = inmZerosOdd s"
  "inmPrevBits (noteMisfire s eb ob ev) = inmPrevBits s"
  "inmPrevBit (noteMisfire s eb ob ev) = inmPrevBit s"
  "inmNumBitsSampled (noteMisfire s eb ob ev) = inmNumBitsSampled s"
  "inmNumBitsOfEntropy (noteMisfire s eb ob ev) = inmNumBitsOfEntropy s"
  "inmCurrentProbability (noteMisfire s eb ob ev) = inmCurrentProbability s"
  "inmEntropyLevel (noteMisfire s eb ob ev) = inmEntropyLevel s"
  "inmNumSequentialOnes (noteMisfire s eb ob ev) = inmNumSequentialOnes s"
  "inmNumSequentialZeros (noteMisfire s eb ob ev) = inmNumSequentialZeros s"
  "inmTotalOnes (noteMisfire s eb ob ev) = inmTotalOnes s"
  "inmTotalZeros (noteMisfire s eb ob ev) = inmTotalZeros s"
  "inmExpectedEntropyPerBit (noteMisfire s eb ob ev) = inmExpectedEntropyPerBit s"
  "inmTotalBits (noteMisfire s eb ob ev) = inmTotalBits s + 1"
  by (simp_all add: noteMisfire_def Let_def)

lemma counted_fields:
  "inmN (counted s b) = inmN s"
  "inmOnesEven (counted s b) = inmOnesEven s"
  "inmZerosEven (counted s b) = inmZerosEven s"
  "inmOnesOdd (counted s b) = inmOnesOdd s"
  "inmZerosOdd (counted s b) = inmZerosOdd s"
  "inmPrevBits (counted s b) = inmPrevBits s"
  "inmPrevBit (counted s b) = inmPrevBit s"
  "inmNumBitsSampled (counted s b) = inmNumBitsSampled s"
  "inmNumBitsOfEntropy (counted s b) = inmNumBitsOfEntropy s"
  "inmCurrentProbability (counted s b) = inmCurrentProbability s"
  "inmEntropyLevel (counted s b) = inmEntropyLevel s"
  "inmExpectedEntropyPerBit (counted s b) = inmExpectedEntropyPerBit s"
  "inmTotalBits (counted s b) = inmTotalBits s"
  "inmEvenMisfires (counted s b) = inmEvenMisfires s"
  "inmOddMisfires (counted s b) = inmOddMisfires s"
  by (simp_all add: counted_def)

lemma beforeLoop_eq:
  assumes "tablesOk s" "countersOk s" "0 < inmCurrentProbability s"
  shows "\<exists>c q. unat c < 2 ^ unat (inmN s) \<and> 0 < q \<and> q \<le> inmCurrentProbability s
           \<and> beforeLoop s eb ob ev =
               (if runFull s (selectedBit eb ob ev)
                then Inl (MaxSequenceExceeded (selectedBit eb ob ev))
                else Inr (entering s eb ob ev c q))"
proof -
  let ?b = "selectedBit eb ob ev"
  let ?s0 = "noteMisfire s eb ob ev"
  from assms(1) have N: "1 \<le> unat (inmN ?s0)" "unat (inmN ?s0) \<le> 30"
    by (simp_all add: tablesOk_def noteMisfire_fields)
  from advanceContext_ok[OF N, of ?b] obtain c where
    adv: "advanceContext ?s0 ?b = Inr (?s0\<lparr>inmPrevBits := c, inmPrevBit := ?b\<rparr>)"
    and c: "unat c < 2 ^ unat (inmN s)"
    by (auto simp: noteMisfire_fields)
  let ?m = "?s0\<lparr>inmPrevBits := c, inmPrevBit := ?b\<rparr>"
  from assms(2) have seq: "unat (inmNumSequentialOnes ?m) \<le> INM_MAX_SEQUENCE"
    "unat (inmNumSequentialZeros ?m) \<le> INM_MAX_SEQUENCE"
    by (simp_all add: countersOk_def noteMisfire_fields)
  have full: "runFull ?m ?b = runFull s ?b"
    by (simp add: runFull_def noteMisfire_fields)
  note chk = checkSequence_eq[OF seq, of ?b, unfolded full]
  let ?s2 = "counted ?m ?b"
  have "tablesOk ?s2"
    using assms(1) c by (simp add: tablesOk_def counted_fields noteMisfire_fields)
  from lookupCounts_ok[OF this, of ev] obtain z n where
    look: "lookupCounts ?s2 ev = Inr (z, n)"
    and zn: "unat z < INM_MAX_COUNT" "unat n < INM_MAX_COUNT"
    by blast
  have "0 < inmCurrentProbability ?s2"
    using assms(3) by (simp add: counted_fields noteMisfire_fields)
  from updateProbability_ok[OF zn this, of ?b] obtain q where
    upd: "updateProbability ?s2 ?b z n = Inr (?s2\<lparr>inmCurrentProbability := q\<rparr>)"
    and q: "0 < q" "q \<le> inmCurrentProbability s"
    by (auto simp: counted_fields noteMisfire_fields)
  have "beforeLoop s eb ob ev =
          (if runFull s ?b then Inl (MaxSequenceExceeded ?b) else Inr (entering s eb ob ev c q))"
    unfolding beforeLoop_def Let_def selectedBit_def[symmetric]
    by (simp add: adv chk look upd entering_def)
  with c q show ?thesis by blast
qed


lemma entering_fields:
  "inmN (entering s eb ob ev c q) = inmN s"
  "inmOnesEven (entering s eb ob ev c q) = inmOnesEven s"
  "inmZerosEven (entering s eb ob ev c q) = inmZerosEven s"
  "inmOnesOdd (entering s eb ob ev c q) = inmOnesOdd s"
  "inmZerosOdd (entering s eb ob ev c q) = inmZerosOdd s"
  "inmPrevBits (entering s eb ob ev c q) = c"
  "inmPrevBit (entering s eb ob ev c q) = selectedBit eb ob ev"
  "inmNumBitsSampled (entering s eb ob ev c q) = inmNumBitsSampled s"
  "inmNumBitsOfEntropy (entering s eb ob ev c q) = inmNumBitsOfEntropy s"
  "inmCurrentProbability (entering s eb ob ev c q) = q"
  "inmEntropyLevel (entering s eb ob ev c q) = inmEntropyLevel s"
  "inmExpectedEntropyPerBit (entering s eb ob ev c q) = inmExpectedEntropyPerBit s"
  "inmTotalBits (entering s eb ob ev c q) = inmTotalBits s + 1"
  by (simp_all add: entering_def counted_fields noteMisfire_fields)

lemma loopResult_fields:
  "inmN (loopResult s k l) = inmN s"
  "inmOnesEven (loopResult s k l) = inmOnesEven s"
  "inmZerosEven (loopResult s k l) = inmZerosEven s"
  "inmOnesOdd (loopResult s k l) = inmOnesOdd s"
  "inmZerosOdd (loopResult s k l) = inmZerosOdd s"
  "inmPrevBits (loopResult s k l) = inmPrevBits s"
  "inmPrevBit (loopResult s k l) = inmPrevBit s"
  "inmNumBitsSampled (loopResult s k l) = inmNumBitsSampled s"
  "inmNumBitsOfEntropy (loopResult s k l) = inmNumBitsOfEntropy s + of_nat k"
  "inmCurrentProbability (loopResult s k l) = inmCurrentProbability s * 2 ^ k"
  "inmEntropyLevel (loopResult s k l) = l"
  "inmExpectedEntropyPerBit (loopResult s k l) = inmExpectedEntropyPerBit s"
  "inmTotalBits (loopResult s k l) = inmTotalBits s"
  "inmNumSequentialOnes (loopResult s k l) = inmNumSequentialOnes s"
  "inmNumSequentialZeros (loopResult s k l) = inmNumSequentialZeros s"
  "inmTotalOnes (loopResult s k l) = inmTotalOnes s"
  "inmTotalZeros (loopResult s k l) = inmTotalZeros s"
  "inmEvenMisfires (loopResult s k l) = inmEvenMisfires s"
  "inmOddMisfires (loopResult s k l) = inmOddMisfires s"
  by (simp_all add: loopResult_def)

lemma afterLoop_eq:
  assumes "tablesOk s"
  shows "afterLoop s eb ob ev = Inr (leaving s eb ob ev)"
proof -
  have "tablesOk (s\<lparr>inmNumBitsSampled := inmNumBitsSampled s + 1\<rparr>)"
    using assms by (simp add: tablesOk_def)
  from countBit_ok[OF this] show ?thesis
    by (simp add: afterLoop_def leaving_def Let_def selectedBit_def)
qed

lemma addBit_eq:
  assumes "wellFormed s"
  shows "\<exists>c q k l. unat c < 2 ^ unat (inmN s)
           \<and> 0 < q \<and> q \<le> inmCurrentProbability s
           \<and> 1 / 2 < q * 2 ^ k \<and> (\<forall>j<k. q * 2 ^ j \<le> 1 / 2)
           \<and> unat (inmEntropyLevel s) \<le> unat l \<and> unat l \<le> INM_MAX_ENTROPY
           \<and> (l \<noteq> inmEntropyLevel s \<longrightarrow>
                (\<exists>j<k. inmHealthCheckOkToUseData
                          (s\<lparr>inmTotalBits := inmTotalBits s + 1,
                             inmNumBitsOfEntropy := inmNumBitsOfEntropy s + of_nat (Suc j)\<rparr>)))
           \<and> inmHealthCheckAddBit s eb ob ev =
               (if runFull s (selectedBit eb ob ev)
                then Some (Inl (MaxSequenceExceeded (selectedBit eb ob ev)))
                else Some (Inr (outcome s eb ob ev c q k l)))"
proof -
  from assms have t: "tablesOk s" and cn: "countersOk s"
    and p: "0 < inmCurrentProbability s"
    by (simp_all add: wellFormed_def)
  from beforeLoop_eq[OF t cn p, of eb ob ev] obtain c q where
    c: "unat c < 2 ^ unat (inmN s)" and q: "0 < q" "q \<le> inmCurrentProbability s"
    and before: "beforeLoop s eb ob ev =
               (if runFull s (selectedBit eb ob ev)
                then Inl (MaxSequenceExceeded (selectedBit eb ob ev))
                else Inr (entering s eb ob ev c q))"
    by blast
  let ?s1 = "entering s eb ob ev c q"
  have q1: "0 < inmCurrentProbability ?s1" using q(1) by (simp add: entering_fields)
  obtain n where "1 / 2 < inmCurrentProbability ?s1 * 2 ^ n"
    using power_two_reaches[OF q1] ..
  from emitEntropy_runs[OF q1 this] obtain k l where
    loop: "emitEntropy ?s1 = Some (loopResult ?s1 k l)"
    and big: "1 / 2 < inmCurrentProbability ?s1 * 2 ^ k"
    and small: "\<forall>j<k. inmCurrentProbability ?s1 * 2 ^ j \<le> 1 / 2"
    and mono: "unat (inmEntropyLevel ?s1) \<le> unat l"
    and cap: "unat (inmEntropyLevel ?s1) \<le> INM_MAX_ENTROPY \<longrightarrow> unat l \<le> INM_MAX_ENTROPY"
    and gate: "l \<noteq> inmEntropyLevel ?s1 \<longrightarrow>
                (\<exists>j<k. inmHealthCheckOkToUseData
                     (?s1\<lparr>inmNumBitsOfEntropy := inmNumBitsOfEntropy ?s1 + of_nat (Suc j)\<rparr>))"
    by blast
  have gate': "l \<noteq> inmEntropyLevel s \<longrightarrow>
                (\<exists>j<k. inmHealthCheckOkToUseData
                          (s\<lparr>inmTotalBits := inmTotalBits s + 1,
                             inmNumBitsOfEntropy := inmNumBitsOfEntropy s + of_nat (Suc j)\<rparr>))"
  proof
    assume "l \<noteq> inmEntropyLevel s"
    with gate obtain j where j: "j < k" "inmHealthCheckOkToUseData
        (?s1\<lparr>inmNumBitsOfEntropy := inmNumBitsOfEntropy ?s1 + of_nat (Suc j)\<rparr>)"
      by (auto simp: entering_fields)
    have "inmHealthCheckOkToUseData
            (s\<lparr>inmTotalBits := inmTotalBits s + 1,
               inmNumBitsOfEntropy := inmNumBitsOfEntropy s + of_nat (Suc j)\<rparr>)
        = inmHealthCheckOkToUseData
            (?s1\<lparr>inmNumBitsOfEntropy := inmNumBitsOfEntropy ?s1 + of_nat (Suc j)\<rparr>)"
      by (rule okToUseData_fields) (simp_all add: entering_fields)
    with j show "\<exists>j<k. inmHealthCheckOkToUseData
                          (s\<lparr>inmTotalBits := inmTotalBits s + 1,
                             inmNumBitsOfEntropy := inmNumBitsOfEntropy s + of_nat (Suc j)\<rparr>)"
      by blast
  qed
  have "tablesOk (loopResult ?s1 k l)"
    using t c by (simp add: tablesOk_def loopResult_fields entering_fields)
  from afterLoop_eq[OF this] have after:
    "afterLoop (loopResult ?s1 k l) eb ob ev = Inr (outcome s eb ob ev c q k l)"
    by (simp add: outcome_def)
  have call: "inmHealthCheckAddBit s eb ob ev =
               (if runFull s (selectedBit eb ob ev)
                then Some (Inl (MaxSequenceExceeded (selectedBit eb ob ev)))
                else Some (Inr (outcome s eb ob ev c q k l)))"
    by (simp add: inmHealthCheckAddBit_def before loop after)
  have lv: "unat (inmEntropyLevel s) \<le> unat l" "unat l \<le> INM_MAX_ENTROPY"
    using mono cap cn by (simp_all add: entering_fields countersOk_def)
  from c q big small lv gate' call show ?thesis
    unfolding entering_fields by blast
qed


lemma leaving_fields:
  "inmN (leaving s eb ob ev) = inmN s"
  "inmPrevBits (leaving s eb ob ev) = inmPrevBits s"
  "inmPrevBit (leaving s eb ob ev) = inmPrevBit s"
  "inmCurrentProbability (leaving s eb ob ev) = inmCurrentProbability s"
  "inmEntropyLevel (leaving s eb ob ev) = inmEntropyLevel s"
  "inmExpectedEntropyPerBit (leaving s eb ob ev) = inmExpectedEntropyPerBit s"
  "inmTotalBits (leaving s eb ob ev) = inmTotalBits s"
  "inmNumSequentialOnes (leaving s eb ob ev) = inmNumSequentialOnes s"
  "inmNumSequentialZeros (leaving s eb ob ev) = inmNumSequentialZeros s"
  by (simp_all add: leaving_def scaleZeroOneCounts_def scaleEntropy_def tallied_def Let_def)



lemma leaving_scaled:
  "inmNumBitsSampled (leaving s eb ob ev) =
     (if unat (inmNumBitsSampled s + 1) = INM_MIN_DATA
      then drop_bit 1 (inmNumBitsSampled s + 1) else inmNumBitsSampled s + 1)"
  "inmNumBitsOfEntropy (leaving s eb ob ev) =
     (if unat (inmNumBitsSampled s + 1) = INM_MIN_DATA
      then drop_bit 1 (inmNumBitsOfEntropy s) else inmNumBitsOfEntropy s)"
  "inmEvenMisfires (leaving s eb ob ev) =
     (if unat (inmNumBitsSampled s + 1) = INM_MIN_DATA
      then drop_bit 1 (inmEvenMisfires s) else inmEvenMisfires s)"
  "inmOddMisfires (leaving s eb ob ev) =
     (if unat (inmNumBitsSampled s + 1) = INM_MIN_DATA
      then drop_bit 1 (inmOddMisfires s) else inmOddMisfires s)"
  by (simp_all add: leaving_def scaleZeroOneCounts_def scaleEntropy_def tallied_def Let_def)


lemma leaving_tablesOk:
  assumes "tablesOk s"
  shows "tablesOk (leaving s eb ob ev)"
proof -
  let ?t = "tallied (s\<lparr>inmNumBitsSampled := inmNumBitsSampled s + 1\<rparr>)
              (target (selectedBit eb ob ev) ev)"
  have "tablesOk (s\<lparr>inmNumBitsSampled := inmNumBitsSampled s + 1\<rparr>)"
    using assms by (simp add: tablesOk_def)
  then have "tablesOk ?t" by (rule tallied_tablesOk)
  moreover have "tablesOk (leaving s eb ob ev) = tablesOk ?t"
    by (rule tablesOk_fields)
      (simp_all add: leaving_def scaleZeroOneCounts_def scaleEntropy_def Let_def)
  ultimately show ?thesis by simp
qed

lemma sampled_step:
  fixes n :: u32
  assumes "unat n < INM_MIN_DATA"
  shows "unat (n + 1) = Suc (unat n)"
    "unat (if unat (n + 1) = INM_MIN_DATA then drop_bit 1 (n + 1) else n + 1) < INM_MIN_DATA"
    "(if unat (n + 1) = INM_MIN_DATA then drop_bit 1 (n + 1) else n + 1) \<noteq> 0"
proof -
  show suc: "unat (n + 1) = Suc (unat n)"
    using assms by (simp add: unat_add_lem[THEN iffD1] INM_MIN_DATA_def)
  have half: "unat (drop_bit 1 (n + 1)) = Suc (unat n) div 2"
    by (simp add: drop_bit_eq_div unat_div suc)
  show "unat (if unat (n + 1) = INM_MIN_DATA then drop_bit 1 (n + 1) else n + 1) < INM_MIN_DATA"
    using assms suc half by (auto simp: INM_MIN_DATA_def)
  have "0 < unat (if unat (n + 1) = INM_MIN_DATA then drop_bit 1 (n + 1) else n + 1)"
    using suc half by (auto simp: INM_MIN_DATA_def)
  then show "(if unat (n + 1) = INM_MIN_DATA then drop_bit 1 (n + 1) else n + 1) \<noteq> 0"
    using unat_gt_0 by blast
qed

lemma doubled_bound:
  fixes q :: real
  assumes "q \<le> 1" "\<forall>j<k. q * 2 ^ j \<le> 1 / 2"
  shows "q * 2 ^ k \<le> 1"
proof (cases k)
  case 0
  with assms(1) show ?thesis by simp
next
  case (Suc i)
  with assms(2) have "q * 2 ^ i \<le> 1 / 2" by simp
  then show ?thesis by (simp add: Suc)
qed


lemma entering_runs:
  "inmNumSequentialOnes (entering s eb ob ev c q) =
     inmNumSequentialOnes (counted s (selectedBit eb ob ev))"
  "inmNumSequentialZeros (entering s eb ob ev c q) =
     inmNumSequentialZeros (counted s (selectedBit eb ob ev))"
  by (simp_all add: entering_def counted_def noteMisfire_fields)

lemma outcome_fields:
  "inmN (outcome s eb ob ev c q k l) = inmN s"
  "inmPrevBits (outcome s eb ob ev c q k l) = c"
  "inmPrevBit (outcome s eb ob ev c q k l) = selectedBit eb ob ev"
  "inmCurrentProbability (outcome s eb ob ev c q k l) = q * 2 ^ k"
  "inmEntropyLevel (outcome s eb ob ev c q k l) = l"
  "inmExpectedEntropyPerBit (outcome s eb ob ev c q k l) = inmExpectedEntropyPerBit s"
  "inmTotalBits (outcome s eb ob ev c q k l) = inmTotalBits s + 1"
  "inmNumSequentialOnes (outcome s eb ob ev c q k l) =
     inmNumSequentialOnes (counted s (selectedBit eb ob ev))"
  "inmNumSequentialZeros (outcome s eb ob ev c q k l) =
     inmNumSequentialZeros (counted s (selectedBit eb ob ev))"
  "inmNumBitsSampled (outcome s eb ob ev c q k l) =
     (if unat (inmNumBitsSampled s + 1) = INM_MIN_DATA
      then drop_bit 1 (inmNumBitsSampled s + 1) else inmNumBitsSampled s + 1)"
  "inmNumBitsOfEntropy (outcome s eb ob ev c q k l) =
     (if unat (inmNumBitsSampled s + 1) = INM_MIN_DATA
      then drop_bit 1 (inmNumBitsOfEntropy s + of_nat k) else inmNumBitsOfEntropy s + of_nat k)"
  by (simp_all add: outcome_def leaving_fields leaving_scaled loopResult_fields entering_fields
      entering_runs)

lemma outcome_wellFormed:
  assumes "wellFormed s" "\<not> runFull s (selectedBit eb ob ev)"
    "unat c < 2 ^ unat (inmN s)" "0 < q" "q \<le> inmCurrentProbability s"
    "1 / 2 < q * 2 ^ k" "\<forall>j<k. q * 2 ^ j \<le> 1 / 2" "unat l \<le> INM_MAX_ENTROPY"
  shows "wellFormed (outcome s eb ob ev c q k l)"
proof -
  from assms(1) have t: "tablesOk s" and cn: "countersOk s"
    and p: "inmCurrentProbability s \<le> 1"
    by (simp_all add: wellFormed_def)
  have "tablesOk (loopResult (entering s eb ob ev c q) k l)"
    using t assms(3) by (simp add: tablesOk_def loopResult_fields entering_fields)
  then have t': "tablesOk (outcome s eb ob ev c q k l)"
    unfolding outcome_def by (rule leaving_tablesOk)
  from cn have seq: "unat (inmNumSequentialOnes s) \<le> INM_MAX_SEQUENCE"
    "unat (inmNumSequentialZeros s) \<le> INM_MAX_SEQUENCE"
    and smp: "unat (inmNumBitsSampled s) < INM_MIN_DATA"
    by (simp_all add: countersOk_def)
  have cn': "countersOk (outcome s eb ob ev c q k l)"
    unfolding countersOk_def outcome_fields
    using assms(8) counted_counters[OF seq assms(2)] sampled_step(2,3)[OF smp]
    by simp
  have "q \<le> 1" using assms(5) p by simp
  from doubled_bound[OF this assms(7)] assms(6) t' cn' show ?thesis
    by (simp add: wellFormed_def outcome_fields)
qed

lemma addBit_wellFormed:
  assumes "wellFormed s" "inmHealthCheckAddBit s eb ob ev = Some (Inr s')"
  shows "wellFormed s'"
proof -
  from addBit_eq[OF assms(1), of eb ob ev] obtain c q k l where
    h: "unat c < 2 ^ unat (inmN s)" "0 < q" "q \<le> inmCurrentProbability s"
      "1 / 2 < q * 2 ^ k" "\<forall>j<k. q * 2 ^ j \<le> 1 / 2" "unat l \<le> INM_MAX_ENTROPY"
    and r: "inmHealthCheckAddBit s eb ob ev =
               (if runFull s (selectedBit eb ob ev)
                then Some (Inl (MaxSequenceExceeded (selectedBit eb ob ev)))
                else Some (Inr (outcome s eb ob ev c q k l)))"
    by blast
  from r assms(2) have nf: "\<not> runFull s (selectedBit eb ob ev)"
    and s': "s' = outcome s eb ob ev c q k l"
    by (auto split: if_splits)
  from outcome_wellFormed[OF assms(1) nf h] s' show ?thesis by simp
qed

lemma clear_wellFormed:
  assumes "wellFormed s"
  shows "wellFormed (inmClearEntropyLevel s)"
  using assms
  by (simp add: wellFormed_def tablesOk_def countersOk_def inmClearEntropyLevel_def)

lemma perform_wellFormed:
  assumes "wellFormed s" "perform s c = Some (Inr s')"
  shows "wellFormed s'"
proof (cases c)
  case (AddBit eb ob ev)
  with assms show ?thesis by (auto intro: addBit_wellFormed)
next
  case ClearEntropyLevel
  with assms show ?thesis by (auto intro: clear_wellFormed)
qed

lemma run_wellFormed:
  assumes "wellFormed s" "run s cs = Some (Inr s')"
  shows "wellFormed s'"
  using assms
proof (induction cs arbitrary: s)
  case Nil
  then show ?case by simp
next
  case (Cons c cs)
  from Cons.prems(2) obtain s1 where s1: "perform s c = Some (Inr s1)" "run s1 cs = Some (Inr s')"
    by (auto split: option.splits sum.splits)
  from perform_wellFormed[OF Cons.prems(1) s1(1)] s1(2) show ?case
    by (rule Cons.IH)
qed

lemma start_state:
  assumes "inmHealthCheckStart s mem N K debug = Inr (True, s0)"
  shows "1 \<le> unat N" "unat N \<le> 30"
    "s0 = s\<lparr>inmDebug := debug, inmNumBitsOfEntropy := 0, inmCurrentProbability := 1,
              inmK := K, inmN := N, inmPrevBits := 0,
              inmOnesEven := Block (replicate (2 ^ unat N) 0),
              inmZerosEven := Block (replicate (2 ^ unat N) 0),
              inmOnesOdd := Block (replicate (2 ^ unat N) 0),
              inmZerosOdd := Block (replicate (2 ^ unat N) 0),
              inmExpectedEntropyPerBit := ln K / ln 2, inmTotalBits := 0,
              inmPrevBit := False, inmNumSequentialZeros := 0, inmNumSequentialOnes := 0,
              inmNumBitsSampled := 0, inmEntropyLevel := 0, inmTotalOnes := 0,
              inmTotalZeros := 0, inmEvenMisfires := 0, inmOddMisfires := 0\<rparr>"
proof -
  from assms have N: "\<not> (N < 1 \<or> N > 30)"
    by (auto simp: inmHealthCheckStart_def)
  then have "\<not> unat N < 1" "\<not> unat N > 30"
    by (simp_all add: word_less_nat_alt)
  then show "1 \<le> unat N" "unat N \<le> 30"
    by simp_all
  show "s0 = s\<lparr>inmDebug := debug, inmNumBitsOfEntropy := 0, inmCurrentProbability := 1,
              inmK := K, inmN := N, inmPrevBits := 0,
              inmOnesEven := Block (replicate (2 ^ unat N) 0),
              inmZerosEven := Block (replicate (2 ^ unat N) 0),
              inmOnesOdd := Block (replicate (2 ^ unat N) 0),
              inmZerosOdd := Block (replicate (2 ^ unat N) 0),
              inmExpectedEntropyPerBit := ln K / ln 2, inmTotalBits := 0,
              inmPrevBit := False, inmNumSequentialZeros := 0, inmNumSequentialOnes := 0,
              inmNumBitsSampled := 0, inmEntropyLevel := 0, inmTotalOnes := 0,
              inmTotalZeros := 0, inmEvenMisfires := 0, inmOddMisfires := 0\<rparr>"
    using assms N
    by (cases s; cases "mem 0"; cases "mem 1"; cases "mem 2"; cases "mem 3")
      (auto simp: inmHealthCheckStart_def resetStats_def calloc_def Let_def
        inmHealthCheckStop_def free_def andThen_def split: sum.splits)
qed

lemma start_wellFormed:
  assumes "inmHealthCheckStart s mem N K debug = Inr (True, s0)"
  shows "wellFormed s0" "follows s0 []"
  using start_state[OF assms]
  by (simp_all add: wellFormed_def tablesOk_def tableOk_def countersOk_def follows_def
      sampledAfter_def trailing_def list_all_iff INM_MAX_COUNT_def INM_MIN_DATA_def)


subsection \<open>The counters along a sequence of calls\<close>

lemma trailing_snoc: "trailing b (xs @ [x]) = (if x = b then Suc (trailing b xs) else 0)"
  by (simp add: trailing_def)

lemma trailing_Nil: "trailing b [] = 0"
  by (simp add: trailing_def)

lemma takeWhile_reaches:
  "n \<le> length (takeWhile P xs) \<longleftrightarrow> n \<le> length xs \<and> list_all P (take n xs)"
proof (induction xs arbitrary: n)
  case Nil
  then show ?case by simp
next
  case (Cons x xs)
  then show ?case by (cases n) auto
qed

lemma endsWithRun_trailing: "endsWithRun n b xs \<longleftrightarrow> n \<le> trailing b xs"
  by (simp add: endsWithRun_def trailing_def takeWhile_reaches)

lemma fatalAt_trailing:
  "fatalAt pre b \<longleftrightarrow> 101 \<le> length pre \<and> INM_MAX_SEQUENCE \<le> trailing b (drop 101 pre)"
proof (cases "101 \<le> length pre")
  case True
  then show ?thesis
    by (simp add: fatalAt_def endsWithRun_trailing trailing_snoc)
next
  case False
  then show ?thesis
    by (simp add: fatalAt_def endsWithRun_trailing trailing_Nil)
qed

lemma sampledAfter_Suc:
  "sampledAfter (Suc n) =
     (if Suc (sampledAfter n) = 80000 then 40000 else Suc (sampledAfter n))"
proof (cases "Suc n < 80000")
  case True
  then show ?thesis by (simp add: sampledAfter_def)
next
  case False
  have m: "n mod 40000 < 40000" by simp
  show ?thesis
  proof (cases "n < 80000")
    case True
    with False have "n = 79999" by simp
    then show ?thesis by (simp add: sampledAfter_def)
  next
    case False
    then show ?thesis using m by (auto simp: sampledAfter_def mod_Suc)
  qed
qed

lemma sampledAfter_warm: "100 < sampledAfter n \<longleftrightarrow> 101 \<le> n"
  by (auto simp: sampledAfter_def)

lemma runFull_fatalAt:
  assumes "countersOk s" "follows s bits"
  shows "runFull s b \<longleftrightarrow> fatalAt bits b"
proof -
  from assms have le: "trailing b (drop 101 bits) \<le> INM_MAX_SEQUENCE"
    by (cases b) (simp_all add: countersOk_def follows_def)
  from assms(2) have "runFull s b \<longleftrightarrow>
      100 < sampledAfter (length bits) \<and> trailing b (drop 101 bits) = INM_MAX_SEQUENCE"
    by (cases b) (simp_all add: runFull_def follows_def)
  with le show ?thesis
    by (auto simp: fatalAt_trailing sampledAfter_warm)
qed


lemma counted_runs:
  assumes "countersOk s" "follows s bits"
  shows "unat (inmNumSequentialOnes (counted s b)) = trailing True (drop 101 (bits @ [b]))
       \<and> unat (inmNumSequentialZeros (counted s b)) = trailing False (drop 101 (bits @ [b]))"
proof -
  from assms(1) have "unat (inmNumSequentialOnes s) \<le> INM_MAX_SEQUENCE"
    "unat (inmNumSequentialZeros s) \<le> INM_MAX_SEQUENCE"
    by (simp_all add: countersOk_def)
  then have suc: "unat (inmNumSequentialOnes s + 1) = Suc (unat (inmNumSequentialOnes s))"
    "unat (inmNumSequentialZeros s + 1) = Suc (unat (inmNumSequentialZeros s))"
    by (simp_all add: unat_add_lem[THEN iffD1] INM_MAX_SEQUENCE_def)
  from assms(2) have f: "unat (inmNumBitsSampled s) = sampledAfter (length bits)"
    "unat (inmNumSequentialOnes s) = trailing True (drop 101 bits)"
    "unat (inmNumSequentialZeros s) = trailing False (drop 101 bits)"
    by (simp_all add: follows_def)
  show ?thesis
  proof (cases "101 \<le> length bits")
    case True
    then have "100 < unat (inmNumBitsSampled s)" by (simp add: f(1) sampledAfter_warm)
    with True suc f show ?thesis
      by (simp add: counted_def trailing_snoc)
  next
    case False
    then have "\<not> 100 < unat (inmNumBitsSampled s)" by (simp add: f(1) sampledAfter_warm)
    with False f show ?thesis
      by (simp add: counted_def trailing_Nil)
  qed
qed

lemma outcome_follows:
  assumes "countersOk s" "follows s bits"
  shows "follows (outcome s eb ob ev c q k l) (bits @ [selectedBit eb ob ev])"
proof -
  from assms(1) have smp: "unat (inmNumBitsSampled s) < INM_MIN_DATA"
    by (simp add: countersOk_def)
  note suc = sampled_step(1)[OF smp]
  from assms(2) have f: "inmTotalBits s = of_nat (length bits)"
    "unat (inmNumBitsSampled s) = sampledAfter (length bits)"
    by (simp_all add: follows_def)
  have half: "unat (drop_bit 1 (inmNumBitsSampled s + 1)) = Suc (unat (inmNumBitsSampled s)) div 2"
    by (simp add: drop_bit_eq_div unat_div suc)
  have "unat (inmNumBitsSampled (outcome s eb ob ev c q k l)) = sampledAfter (Suc (length bits))"
    unfolding outcome_fields sampledAfter_Suc
    using suc half f(2) by (simp add: INM_MIN_DATA_def)
  with counted_runs[OF assms, of "selectedBit eb ob ev"] f(1) show ?thesis
    by (simp add: follows_def outcome_fields)
qed

lemma clear_follows:
  assumes "follows s bits"
  shows "follows (inmClearEntropyLevel s) bits"
  using assms by (simp add: follows_def inmClearEntropyLevel_def)

lemma run_follows:
  assumes "wellFormed s" "follows s pre"
  shows "case firstFatal pre (bitsOf cs) of
           Some b \<Rightarrow> run s cs = Some (Inl (MaxSequenceExceeded b))
         | None \<Rightarrow> (\<exists>s'. run s cs = Some (Inr s') \<and> wellFormed s'
                       \<and> follows s' (pre @ bitsOf cs))"
  using assms
proof (induction cs arbitrary: s pre)
  case Nil
  then show ?case by simp
next
  case (Cons c cs)
  show ?case
  proof (cases c)
    case ClearEntropyLevel
    from Cons.IH[OF clear_wellFormed[OF Cons.prems(1)] clear_follows[OF Cons.prems(2)]]
    show ?thesis by (simp add: ClearEntropyLevel split: option.splits)
  next
    case (AddBit eb ob ev)
    let ?b = "selectedBit eb ob ev"
    from Cons.prems(1) have cn: "countersOk s" by (simp add: wellFormed_def)
    note full = runFull_fatalAt[OF cn Cons.prems(2), of ?b]
    from addBit_eq[OF Cons.prems(1), of eb ob ev] obtain c' q k l where
      h: "unat c' < 2 ^ unat (inmN s)" "0 < q" "q \<le> inmCurrentProbability s"
        "1 / 2 < q * 2 ^ k" "\<forall>j<k. q * 2 ^ j \<le> 1 / 2" "unat l \<le> INM_MAX_ENTROPY"
      and r: "inmHealthCheckAddBit s eb ob ev =
               (if runFull s ?b then Some (Inl (MaxSequenceExceeded ?b))
                else Some (Inr (outcome s eb ob ev c' q k l)))"
      by blast
    have bits: "bitsOf (c # cs) = ?b # bitsOf cs"
      by (simp add: AddBit selectedBit_def)
    show ?thesis
    proof (cases "fatalAt pre ?b")
      case True
      with r full have step: "perform s c = Some (Inl (MaxSequenceExceeded ?b))"
        by (simp add: AddBit)
      have "firstFatal pre (bitsOf (c # cs)) = Some ?b"
        unfolding bits using True by simp
      moreover have "run s (c # cs) = Some (Inl (MaxSequenceExceeded ?b))"
        using step by simp
      ultimately show ?thesis by simp
    next
      case False
      with full have nf: "\<not> runFull s ?b" by simp
      let ?s1 = "outcome s eb ob ev c' q k l"
      from r nf have step: "perform s c = Some (Inr ?s1)" by (simp add: AddBit)
      note wf = outcome_wellFormed[OF Cons.prems(1) nf h]
      note fo = outcome_follows[OF cn Cons.prems(2), of eb ob ev c' q k l]
      have ff: "firstFatal pre (bitsOf (c # cs)) = firstFatal (pre @ [?b]) (bitsOf cs)"
        unfolding bits using False by simp
      have rn: "run s (c # cs) = run ?s1 cs"
        using step by simp
      have app: "pre @ bitsOf (c # cs) = (pre @ [?b]) @ bitsOf cs"
        by (simp add: bits)
      from Cons.IH[OF wf fo] show ?thesis
        unfolding ff rn app .
    qed
  qed
qed


lemma run_from_start:
  assumes "inmHealthCheckStart s mem N K debug = Inr (True, s0)"
  shows "case firstFatal [] (bitsOf cs) of
           Some b \<Rightarrow> run s0 cs = Some (Inl (MaxSequenceExceeded b))
         | None \<Rightarrow> (\<exists>s'. run s0 cs = Some (Inr s') \<and> wellFormed s' \<and> follows s' (bitsOf cs))"
  using run_follows[OF start_wellFormed[OF assms], of cs]
  by (simp split: option.splits)

lemma returned_from_start:
  assumes "inmHealthCheckStart s mem N K debug = Inr (True, s0)" "run s0 cs = Some (Inr s')"
  shows "wellFormed s'" "follows s' (bitsOf cs)"
  using run_from_start[OF assms(1), of cs] assms(2)
  by (auto split: option.splits)

lemma perform_fixed:
  assumes "wellFormed s" "perform s c = Some (Inr s')"
  shows "inmN s' = inmN s \<and> inmExpectedEntropyPerBit s' = inmExpectedEntropyPerBit s"
proof (cases c)
  case ClearEntropyLevel
  with assms(2) show ?thesis by (auto simp: inmClearEntropyLevel_def)
next
  case (AddBit eb ob ev)
  from addBit_eq[OF assms(1), of eb ob ev] obtain c' q k l where
    "inmHealthCheckAddBit s eb ob ev =
               (if runFull s (selectedBit eb ob ev)
                then Some (Inl (MaxSequenceExceeded (selectedBit eb ob ev)))
                else Some (Inr (outcome s eb ob ev c' q k l)))"
    by blast
  with assms(2) AddBit have "s' = outcome s eb ob ev c' q k l"
    by (auto split: if_splits)
  then show ?thesis by (simp add: outcome_fields)
qed

lemma run_fixed:
  assumes "wellFormed s" "run s cs = Some (Inr s')"
  shows "inmN s' = inmN s \<and> inmExpectedEntropyPerBit s' = inmExpectedEntropyPerBit s"
  using assms
proof (induction cs arbitrary: s)
  case Nil
  then show ?case by simp
next
  case (Cons c cs)
  from Cons.prems(2) obtain s1 where s1: "perform s c = Some (Inr s1)" "run s1 cs = Some (Inr s')"
    by (auto split: option.splits sum.splits)
  from Cons.IH[OF perform_wellFormed[OF Cons.prems(1) s1(1)] s1(2)]
    perform_fixed[OF Cons.prems(1) s1(1)]
  show ?case by simp
qed

subsection \<open>What a call leaves\<close>






lemma addBit_level:
  assumes "wellFormed s" "inmHealthCheckAddBit s eb ob ev = Some (Inr s')"
  shows "unat (inmEntropyLevel s) \<le> unat (inmEntropyLevel s')"
    "inmEntropyLevel s' \<noteq> inmEntropyLevel s \<longrightarrow>
       (\<exists>j. inmHealthCheckOkToUseData
               (s\<lparr>inmTotalBits := inmTotalBits s + 1,
                  inmNumBitsOfEntropy := inmNumBitsOfEntropy s + of_nat (Suc j)\<rparr>))"
proof -
  from addBit_eq[OF assms(1), of eb ob ev] obtain c q k l where
    l: "unat (inmEntropyLevel s) \<le> unat l"
    and g: "l \<noteq> inmEntropyLevel s \<longrightarrow>
                (\<exists>j<k. inmHealthCheckOkToUseData
                          (s\<lparr>inmTotalBits := inmTotalBits s + 1,
                             inmNumBitsOfEntropy := inmNumBitsOfEntropy s + of_nat (Suc j)\<rparr>))"
    and r: "inmHealthCheckAddBit s eb ob ev =
               (if runFull s (selectedBit eb ob ev)
                then Some (Inl (MaxSequenceExceeded (selectedBit eb ob ev)))
                else Some (Inr (outcome s eb ob ev c q k l)))"
    by blast
  from r assms(2) have s': "s' = outcome s eb ob ev c q k l"
    by (simp split: if_splits)
  have lv: "inmEntropyLevel s' = l" by (simp add: s' outcome_fields)
  from l show "unat (inmEntropyLevel s) \<le> unat (inmEntropyLevel s')" by (simp add: lv)
  from g show "inmEntropyLevel s' \<noteq> inmEntropyLevel s \<longrightarrow>
       (\<exists>j. inmHealthCheckOkToUseData
               (s\<lparr>inmTotalBits := inmTotalBits s + 1,
                  inmNumBitsOfEntropy := inmNumBitsOfEntropy s + of_nat (Suc j)\<rparr>))"
    unfolding lv by blast
qed

lemma run_level:
  assumes "wellFormed s" "run s cs = Some (Inr s')" "ClearEntropyLevel \<notin> set cs"
  shows "unat (inmEntropyLevel s) \<le> unat (inmEntropyLevel s')"
  using assms
proof (induction cs arbitrary: s)
  case Nil
  then show ?case by simp
next
  case (Cons c cs)
  from Cons.prems(2) obtain s1 where s1: "perform s c = Some (Inr s1)" "run s1 cs = Some (Inr s')"
    by (auto split: option.splits sum.splits)
  from Cons.prems(3) obtain eb ob ev where c: "c = AddBit eb ob ev"
    by (cases c) auto
  from s1(1) have "inmHealthCheckAddBit s eb ob ev = Some (Inr s1)" by (simp add: c)
  from addBit_level(1)[OF Cons.prems(1) this]
  have "unat (inmEntropyLevel s) \<le> unat (inmEntropyLevel s1)" .
  moreover from Cons.IH[OF perform_wellFormed[OF Cons.prems(1) s1(1)] s1(2)] Cons.prems(3)
  have "unat (inmEntropyLevel s1) \<le> unat (inmEntropyLevel s')" by simp
  ultimately show ?case by simp
qed

lemma emitStep_level:
  "inmEntropyLevel (emitStep t) =
     (if inmHealthCheckOkToUseData (t\<lparr>inmNumBitsOfEntropy := inmNumBitsOfEntropy t + 1\<rparr>)
         \<and> unat (inmEntropyLevel t) < INM_MAX_ENTROPY
      then inmEntropyLevel t + 1 else inmEntropyLevel t)"
proof -
  have "inmHealthCheckOkToUseData
          (t\<lparr>inmCurrentProbability := inmCurrentProbability t * 2,
             inmNumBitsOfEntropy := inmNumBitsOfEntropy t + 1\<rparr>)
      = inmHealthCheckOkToUseData (t\<lparr>inmNumBitsOfEntropy := inmNumBitsOfEntropy t + 1\<rparr>)"
    by (rule okToUseData_fields) simp_all
  then show ?thesis by (simp add: emitStep_def Let_def)
qed

lemma updateProbability_zero:
  assumes "(if b then n else z) = 0"
  shows "updateProbability t b z n = Inr t"
  using assms by (simp add: updateProbability_def Let_def)

lemma emitEntropy_doubles:
  assumes "0 < inmCurrentProbability t"
  shows "\<exists>k t'. emitEntropy t = Some t'
           \<and> inmCurrentProbability t' = inmCurrentProbability t * 2 ^ k
           \<and> inmNumBitsOfEntropy t' = inmNumBitsOfEntropy t + of_nat k
           \<and> 1 / 2 < inmCurrentProbability t'
           \<and> (\<forall>j<k. inmCurrentProbability t * 2 ^ j \<le> 1 / 2)"
proof -
  obtain n where "1 / 2 < inmCurrentProbability t * 2 ^ n"
    using power_two_reaches[OF assms] ..
  from emitEntropy_runs[OF assms this] obtain k l where
    "emitEntropy t = Some (loopResult t k l)"
    "1 / 2 < inmCurrentProbability t * 2 ^ k"
    "\<forall>j<k. inmCurrentProbability t * 2 ^ j \<le> 1 / 2"
    by blast
  then show ?thesis
    by (intro exI[of _ k] exI[of _ "loopResult t k l"]) (simp add: loopResult_fields)
qed

lemma addBit_probability:
  assumes "wellFormed s" "inmHealthCheckAddBit s eb ob ev = Some (Inr s')"
  shows "\<exists>q k. 0 < q \<and> q \<le> inmCurrentProbability s
           \<and> inmCurrentProbability s' = q * 2 ^ k
           \<and> (\<forall>j<k. q * 2 ^ j \<le> 1 / 2)"
proof -
  from addBit_eq[OF assms(1), of eb ob ev] obtain c q k l where
    q: "0 < q" "q \<le> inmCurrentProbability s" "\<forall>j<k. q * 2 ^ j \<le> 1 / 2"
    and r: "inmHealthCheckAddBit s eb ob ev =
               (if runFull s (selectedBit eb ob ev)
                then Some (Inl (MaxSequenceExceeded (selectedBit eb ob ev)))
                else Some (Inr (outcome s eb ob ev c q k l)))"
    by blast
  from r assms(2) have "s' = outcome s eb ob ev c q k l"
    by (simp split: if_splits)
  then have "inmCurrentProbability s' = q * 2 ^ k" by (simp add: outcome_fields)
  with q show ?thesis by blast
qed

lemma returned_Inr: "returned (Some (Inr s))"
  by (simp add: returned_def)

lemma addBit_guard:
  assumes "wellFormed s" "follows s bits"
  shows "if fatalAt bits (selectedBit eb ob ev)
         then inmHealthCheckAddBit s eb ob ev
                = Some (Inl (MaxSequenceExceeded (selectedBit eb ob ev)))
         else returned (inmHealthCheckAddBit s eb ob ev)"
proof -
  from assms(1) have cn: "countersOk s" by (simp add: wellFormed_def)
  from addBit_eq[OF assms(1), of eb ob ev] obtain c q k l where
    "inmHealthCheckAddBit s eb ob ev =
               (if runFull s (selectedBit eb ob ev)
                then Some (Inl (MaxSequenceExceeded (selectedBit eb ob ev)))
                else Some (Inr (outcome s eb ob ev c q k l)))"
    by blast
  then show ?thesis
    unfolding runFull_fatalAt[OF cn assms(2)] by (simp add: returned_Inr)
qed

subsection \<open>The example engine\<close>

lemma replicate_two: "replicate 2 x = [x, x]"
  by (simp add: numeral_2_eq_2)

lemma demo_start: "inmHealthCheckStart initial allocating 1 2 False = Inr (True, demo)"
  by (simp add: inmHealthCheckStart_def initial_def resetStats_def calloc_def Let_def demo_def
      allocating_def replicate_two)

lemma emitEntropy_turn:
  assumes "inmCurrentProbability s \<le> 1 / 2"
  shows "emitEntropy s = emitEntropy (emitStep s)"
  using assms by (subst emitEntropy.simps) simp

lemmas addBit_defs =
  inmHealthCheckAddBit_def beforeLoop_def afterLoop_def noteMisfire_def advanceContext_def
  checkSequence_def lookupCounts_def rd_def wr_def updateProbability_def emitEntropy_stop
  emitEntropy_turn emitStep_def loopResult_def countBit_def bumpCell_def scaleEntropy_def
  scaleZeroOneCounts_def inmHealthCheckOkToUseData_def
  inmHealthCheckEstimateEntropyPerBit_def INM_MAX_COUNT_def INM_MIN_DATA_def
  INM_MAX_SEQUENCE_def INM_MAX_ENTROPY_def INM_ACCURACY_def Let_def

lemma demo_run: "run demo demoCalls = Some (Inr demoAfter)"
  by (simp add: demo_def demoCalls_def demoAfter_def addBit_defs)

lemma demo_first: "inmHealthCheckAddBit demo True False True = Some (Inr demoFirst)"
  by (simp add: demo_def demoFirst_def addBit_defs)

section \<open>The claims\<close>

text \<open>
  C9. For every width outside 1..30, \<open>inmHealthCheckStart\<close> returns \<open>false\<close> and leaves
  every static variable, the four table pointers included, as it was.
\<close>

theorem start_rejects_width:
  assumes "unat N < 1 \<or> 30 < unat N"
  shows "inmHealthCheckStart s mem N K debug = Inr (False, s)"
proof -
  from assms have "N < 1 \<or> N > 30"
    by (simp add: word_less_nat_alt)
  then show ?thesis
    by (simp add: inmHealthCheckStart_def)
qed

theorem start_rejects_width_witness:
  "inmHealthCheckStart demo allocating 0 2 True = Inr (False, demo)
   \<and> inmHealthCheckStart demo allocating 31 2 True = Inr (False, demo)"
  using start_rejects_width[of 0 demo allocating 2 True]
    start_rejects_width[of 31 demo allocating 2 True]
  by simp

text \<open>
  C7. After a successful start with width \<open>N\<close>, whatever calls follow, the context
  \<open>inmPrevBits\<close> (the index used for the tables) is below \<open>2 ^ N\<close>, every table has
  \<open>2 ^ N\<close> cells, and no call reads or writes outside a table.
\<close>

theorem context_in_bounds:
  assumes "inmHealthCheckStart s mem N K debug = Inr (True, s0)"
  shows "1 \<le> unat N \<and> unat N \<le> 30
       \<and> run s0 cs \<noteq> Some (Inl Undefined)
       \<and> (\<forall>s'. run s0 cs = Some (Inr s') \<longrightarrow>
             unat (inmPrevBits s') < 2 ^ unat N
             \<and> (\<forall>w. length (cells (tableOf w s')) = 2 ^ unat N))"
proof -
  note st = start_state[OF assms]
  have N: "inmN s0 = N" by (subst st(3)) simp
  have a: "run s0 cs \<noteq> Some (Inl Undefined)"
    using run_from_start[OF assms, of cs] by (auto split: option.splits)
  have b: "unat (inmPrevBits s') < 2 ^ unat N
             \<and> (\<forall>w. length (cells (tableOf w s')) = 2 ^ unat N)"
    if r: "run s0 cs = Some (Inr s')" for s'
  proof -
    note wf = returned_from_start(1)[OF assms r]
    from run_fixed[OF start_wellFormed(1)[OF assms] r] N have N': "inmN s' = N" by simp
    from wf have t: "tablesOk s'" by (simp add: wellFormed_def)
    have "length (cells (tableOf w s')) = 2 ^ unat N" for w
      using t N' by (cases w) (auto simp: tablesOk_def tableOk_def split: table.splits)
    moreover have "unat (inmPrevBits s') < 2 ^ unat N"
      using t N' by (simp add: tablesOk_def)
    ultimately show ?thesis by blast
  qed
  from st(1,2) a b show ?thesis by blast
qed


theorem context_in_bounds_witness:
  "inmHealthCheckStart initial allocating 1 2 False = Inr (True, demo)
   \<and> run demo demoCalls = Some (Inr demoAfter)
   \<and> run demo demoCalls \<noteq> Some (Inl Undefined)
   \<and> unat (inmPrevBits demoAfter) < 2 ^ unat (1 :: u8)
   \<and> length (cells (tableOf ZerosOdd demoAfter)) = 2 ^ unat (1 :: u8)"
proof -
  from context_in_bounds[OF demo_start, of demoCalls] demo_run
  have "run demo demoCalls \<noteq> Some (Inl Undefined)"
    and "unat (inmPrevBits demoAfter) < 2 ^ unat (1 :: u8)"
    and "\<forall>w. length (cells (tableOf w demoAfter)) = 2 ^ unat (1 :: u8)"
    by simp_all
  with demo_start demo_run show ?thesis by blast
qed

text \<open>
  C10. \<open>inmTotalBits\<close> is a 64-bit counter that every returning call of
  \<open>inmHealthCheckAddBit\<close> increments by one and that nothing else changes after the start:
  after \<open>n\<close> calls it holds \<open>n\<close> (modulo \<open>2 ^ 64\<close>), whereas \<open>inmNumBitsSampled\<close> is halved
  whenever it reaches 80000 and so stays below it. Hence from the 80000th call on (and
  for every number of calls that a 64-bit counter can hold) the test
  \<open>inmTotalBits >= INM_MIN_DATA\<close> of \<open>inmHealthCheckOkToUseData\<close> succeeds.
\<close>

theorem total_bits_never_scaled:
  assumes "inmHealthCheckStart s mem N K debug = Inr (True, s0)"
    and "run s0 cs = Some (Inr s')"
  shows "inmTotalBits s' = of_nat (length (bitsOf cs))
       \<and> unat (inmNumBitsSampled s') = sampledAfter (length (bitsOf cs))
       \<and> unat (inmNumBitsSampled s') < INM_MIN_DATA
       \<and> (INM_MIN_DATA \<le> length (bitsOf cs) \<and> length (bitsOf cs) < 2 ^ 64
            \<longrightarrow> INM_MIN_DATA \<le> unat (inmTotalBits s'))"
proof -
  note wf = returned_from_start(1)[OF assms]
  note fo = returned_from_start(2)[OF assms]
  from fo have t: "inmTotalBits s' = of_nat (length (bitsOf cs))"
    and n: "unat (inmNumBitsSampled s') = sampledAfter (length (bitsOf cs))"
    by (simp_all add: follows_def)
  from wf have lt: "unat (inmNumBitsSampled s') < INM_MIN_DATA"
    by (simp add: wellFormed_def countersOk_def)
  have "unat (inmTotalBits s') = length (bitsOf cs)" if "length (bitsOf cs) < 2 ^ 64"
    using that by (simp add: t unat_of_nat)
  with t n lt show ?thesis by simp
qed

theorem total_bits_never_scaled_witness:
  "inmHealthCheckStart initial allocating 1 2 False = Inr (True, demo)
   \<and> run demo demoCalls = Some (Inr demoAfter)
   \<and> inmTotalBits demoAfter = of_nat (length (bitsOf demoCalls))
   \<and> unat (inmNumBitsSampled demoAfter) = sampledAfter (length (bitsOf demoCalls))
   \<and> unat (inmNumBitsSampled demoAfter) < INM_MIN_DATA"
  using total_bits_never_scaled[OF demo_start demo_run] demo_start demo_run
  by simp

text \<open>
  C8. Where at least one bit has been sampled, \<open>inmHealthCheckEstimateEntropyPerBit\<close> is
  the quotient of \<open>inmNumBitsOfEntropy\<close> by \<open>inmNumBitsSampled\<close>, and in every state
  \<open>inmHealthCheckEstimateK\<close> is 2 to the power of that estimate.
\<close>

theorem estimateK_is_power:
  "(inmNumBitsSampled s \<noteq> 0 \<longrightarrow>
      inmHealthCheckEstimateEntropyPerBit s =
        Some (real (unat (inmNumBitsOfEntropy s)) / real (unat (inmNumBitsSampled s))))
   \<and> inmHealthCheckEstimateK s =
        map_option (\<lambda>e. 2 powr e) (inmHealthCheckEstimateEntropyPerBit s)"
  by (simp add: inmHealthCheckEstimateEntropyPerBit_def inmHealthCheckEstimateK_def Let_def)

theorem estimateK_is_power_witness:
  "inmNumBitsSampled demoAfter \<noteq> 0
   \<and> inmHealthCheckEstimateEntropyPerBit demoAfter = Some 0
   \<and> inmHealthCheckEstimateK demoAfter = Some 1"
  using estimateK_is_power[of demoAfter]
  by (simp add: demoAfter_def)










text \<open>
  C4. In every state reached from a successful start the entropy level is at most
  \<open>INM_MAX_ENTROPY = 1600\<close>. A returning call of \<open>inmHealthCheckAddBit\<close> never lowers it,
  nor does a sequence of such calls without \<open>inmClearEntropyLevel\<close>; if a call changes it,
  then \<open>inmHealthCheckOkToUseData\<close> held in that call after one of the entropy units it
  credited. A turn of the loop adds one to the level exactly if, with the unit of that turn
  credited, \<open>inmHealthCheckOkToUseData\<close> holds and the level is below 1600.
  \<open>inmClearEntropyLevel\<close> sets the level to 0, which \<open>inmGetEntropyLevel\<close> then returns.
\<close>

theorem entropy_level_capped:
  assumes "inmHealthCheckStart s0 mem N K debug = Inr (True, s1)"
    and "run s1 cs = Some (Inr s)"
  shows "unat (inmEntropyLevel s) \<le> 1600
       \<and> (\<forall>evenBit oddBit even' s'.
             inmHealthCheckAddBit s evenBit oddBit even' = Some (Inr s') \<longrightarrow>
               unat (inmEntropyLevel s) \<le> unat (inmEntropyLevel s')
               \<and> (inmEntropyLevel s' \<noteq> inmEntropyLevel s \<longrightarrow>
                    (\<exists>j. inmHealthCheckOkToUseData
                            (s\<lparr>inmTotalBits := inmTotalBits s + 1,
                               inmNumBitsOfEntropy := inmNumBitsOfEntropy s + of_nat (Suc j)\<rparr>))))
       \<and> (\<forall>cs' s'. ClearEntropyLevel \<notin> set cs' \<and> run s cs' = Some (Inr s') \<longrightarrow>
             unat (inmEntropyLevel s) \<le> unat (inmEntropyLevel s'))
       \<and> (\<forall>t. inmEntropyLevel (emitStep t) =
             (if inmHealthCheckOkToUseData (t\<lparr>inmNumBitsOfEntropy := inmNumBitsOfEntropy t + 1\<rparr>)
                 \<and> unat (inmEntropyLevel t) < 1600
              then inmEntropyLevel t + 1 else inmEntropyLevel t))
       \<and> inmEntropyLevel (inmClearEntropyLevel s) = 0
       \<and> inmGetEntropyLevel (inmClearEntropyLevel s) = 0"
proof -
  note wf = returned_from_start(1)[OF assms]
  from wf have cap: "unat (inmEntropyLevel s) \<le> 1600"
    by (simp add: wellFormed_def countersOk_def INM_MAX_ENTROPY_def)
  have step: "\<forall>evenBit oddBit even' s'.
             inmHealthCheckAddBit s evenBit oddBit even' = Some (Inr s') \<longrightarrow>
               unat (inmEntropyLevel s) \<le> unat (inmEntropyLevel s')
               \<and> (inmEntropyLevel s' \<noteq> inmEntropyLevel s \<longrightarrow>
                    (\<exists>j. inmHealthCheckOkToUseData
                            (s\<lparr>inmTotalBits := inmTotalBits s + 1,
                               inmNumBitsOfEntropy := inmNumBitsOfEntropy s + of_nat (Suc j)\<rparr>)))"
    using addBit_level[OF wf] by blast
  have seq: "\<forall>cs' s'. ClearEntropyLevel \<notin> set cs' \<and> run s cs' = Some (Inr s') \<longrightarrow>
             unat (inmEntropyLevel s) \<le> unat (inmEntropyLevel s')"
    using run_level[OF wf] by blast
  have turn: "\<forall>t. inmEntropyLevel (emitStep t) =
             (if inmHealthCheckOkToUseData (t\<lparr>inmNumBitsOfEntropy := inmNumBitsOfEntropy t + 1\<rparr>)
                 \<and> unat (inmEntropyLevel t) < 1600
              then inmEntropyLevel t + 1 else inmEntropyLevel t)"
    using emitStep_level by (simp add: INM_MAX_ENTROPY_def)
  have clr: "inmEntropyLevel (inmClearEntropyLevel s) = 0"
    "inmGetEntropyLevel (inmClearEntropyLevel s) = 0"
    by (simp_all add: inmClearEntropyLevel_def inmGetEntropyLevel_def)
  from cap step seq turn clr show ?thesis by blast
qed

theorem entropy_level_capped_witness:
  "inmHealthCheckStart initial allocating 1 2 False = Inr (True, demo)
   \<and> run demo [] = Some (Inr demo)
   \<and> inmHealthCheckAddBit demo True False True = Some (Inr demoFirst)
   \<and> ClearEntropyLevel \<notin> set demoCalls
   \<and> run demo demoCalls = Some (Inr demoAfter)
   \<and> unat (inmEntropyLevel demo) \<le> 1600
   \<and> unat (inmEntropyLevel demo) \<le> unat (inmEntropyLevel demoFirst)
   \<and> unat (inmEntropyLevel demo) \<le> unat (inmEntropyLevel demoAfter)
   \<and> inmGetEntropyLevel (inmClearEntropyLevel demo) = 0"
proof -
  have r: "run demo [] = Some (Inr demo)" by simp
  have c: "ClearEntropyLevel \<notin> set demoCalls" by (simp add: demoCalls_def)
  note th = entropy_level_capped[OF demo_start r]
  from th have "unat (inmEntropyLevel demo) \<le> 1600"
    and "inmGetEntropyLevel (inmClearEntropyLevel demo) = 0" by blast+
  moreover from th demo_first
  have "unat (inmEntropyLevel demo) \<le> unat (inmEntropyLevel demoFirst)" by blast
  moreover from th c demo_run
  have "unat (inmEntropyLevel demo) \<le> unat (inmEntropyLevel demoAfter)" by blast
  ultimately show ?thesis using demo_start r demo_first c demo_run by blast
qed


text \<open>
  C3. The probability is 1 after a successful start and lies in the interval (1/2, 1] in
  every state reached from there, so after every returning call. In a call the
  probability \<open>q\<close> before the loop is positive and at most the one before the call, and
  the call leaves \<open>q * 2 ^ k\<close> for the least \<open>k\<close> that brings it above 1/2. The loop,
  started with a positive probability, ends; it doubles the probability once for each
  entropy unit it credits and stops as soon as the probability exceeds 1/2. A matching
  count of zero leaves the state, and so the probability, unchanged.
\<close>

theorem probability_in_range:
  assumes "inmHealthCheckStart s0 mem N K debug = Inr (True, s1)"
    and "run s1 cs = Some (Inr s)"
  shows "inmCurrentProbability s1 = 1
       \<and> 1 / 2 < inmCurrentProbability s \<and> inmCurrentProbability s \<le> 1
       \<and> (\<forall>evenBit oddBit even' s'.
             inmHealthCheckAddBit s evenBit oddBit even' = Some (Inr s') \<longrightarrow>
               (\<exists>q k. 0 < q \<and> q \<le> inmCurrentProbability s
                    \<and> inmCurrentProbability s' = q * 2 ^ k
                    \<and> (\<forall>j<k. q * 2 ^ j \<le> 1 / 2)
                    \<and> 1 / 2 < inmCurrentProbability s' \<and> inmCurrentProbability s' \<le> 1))
       \<and> (\<forall>t. 0 < inmCurrentProbability t \<longrightarrow>
             (\<exists>k t'. emitEntropy t = Some t'
                  \<and> inmCurrentProbability t' = inmCurrentProbability t * 2 ^ k
                  \<and> inmNumBitsOfEntropy t' = inmNumBitsOfEntropy t + of_nat k
                  \<and> 1 / 2 < inmCurrentProbability t'
                  \<and> (\<forall>j<k. inmCurrentProbability t * 2 ^ j \<le> 1 / 2)))
       \<and> (\<forall>t bit' zeros ones. (if bit' then ones else zeros) = 0 \<longrightarrow>
             updateProbability t bit' zeros ones = Inr t)"
proof -
  note wf = returned_from_start(1)[OF assms]
  have one: "inmCurrentProbability s1 = 1"
    by (subst start_state(3)[OF assms(1)]) simp
  from wf have rng: "1 / 2 < inmCurrentProbability s" "inmCurrentProbability s \<le> 1"
    by (simp_all add: wellFormed_def)
  have step: "\<exists>q k. 0 < q \<and> q \<le> inmCurrentProbability s
                    \<and> inmCurrentProbability s' = q * 2 ^ k
                    \<and> (\<forall>j<k. q * 2 ^ j \<le> 1 / 2)
                    \<and> 1 / 2 < inmCurrentProbability s' \<and> inmCurrentProbability s' \<le> 1"
    if a: "inmHealthCheckAddBit s evenBit oddBit even' = Some (Inr s')"
    for evenBit oddBit even' s'
  proof -
    from addBit_wellFormed[OF wf a]
    have "1 / 2 < inmCurrentProbability s'" "inmCurrentProbability s' \<le> 1"
      by (simp_all add: wellFormed_def)
    with addBit_probability[OF wf a] show ?thesis by blast
  qed
  from one rng step emitEntropy_doubles updateProbability_zero show ?thesis
    by blast
qed

theorem probability_in_range_witness:
  "inmHealthCheckStart initial allocating 1 2 False = Inr (True, demo)
   \<and> run demo demoCalls = Some (Inr demoAfter)
   \<and> inmCurrentProbability demo = 1
   \<and> 1 / 2 < inmCurrentProbability demoAfter \<and> inmCurrentProbability demoAfter \<le> 1"
  using probability_in_range[OF demo_start demo_run] demo_start demo_run
  by blast


text \<open>
  C2, as the code has it. There is one pair of run counters for the stream of the bits
  that the calls select, whichever lane a call is for, and the counters are used only
  while \<open>inmNumBitsSampled > 100\<close>, that is from the 102nd call on. A sequence of calls
  on a started engine ends in \<open>exit\<close> at the first call whose bit completes a run of 21
  equal bits among the bits of the 102nd and later calls, and returns from every call if
  there is no such call. After calls that have all returned, the next call ends in \<open>exit\<close>
  exactly if its bit completes such a run, and returns otherwise.
\<close>

theorem run_length_guard:
  assumes "inmHealthCheckStart s0 mem N K debug = Inr (True, s1)"
  shows "(case firstFatal [] (bitsOf cs) of
            Some b \<Rightarrow> run s1 cs = Some (Inl (MaxSequenceExceeded b))
          | None \<Rightarrow> returned (run s1 cs))
       \<and> (\<forall>s evenBit oddBit even'. run s1 cs = Some (Inr s) \<longrightarrow>
             (if fatalAt (bitsOf cs) (selectedBit evenBit oddBit even')
              then inmHealthCheckAddBit s evenBit oddBit even'
                     = Some (Inl (MaxSequenceExceeded (selectedBit evenBit oddBit even')))
              else returned (inmHealthCheckAddBit s evenBit oddBit even')))"
proof -
  have a: "case firstFatal [] (bitsOf cs) of
            Some b \<Rightarrow> run s1 cs = Some (Inl (MaxSequenceExceeded b))
          | None \<Rightarrow> returned (run s1 cs)"
    using run_from_start[OF assms, of cs]
    by (auto simp: returned_Inr split: option.splits)
  have b: "if fatalAt (bitsOf cs) (selectedBit evenBit oddBit even')
              then inmHealthCheckAddBit s evenBit oddBit even'
                     = Some (Inl (MaxSequenceExceeded (selectedBit evenBit oddBit even')))
              else returned (inmHealthCheckAddBit s evenBit oddBit even')"
    if "run s1 cs = Some (Inr s)" for s evenBit oddBit even'
    using addBit_guard[OF returned_from_start[OF assms that]] .
  from a b show ?thesis by blast
qed

theorem run_length_guard_witness:
  "inmHealthCheckStart initial allocating 1 2 False = Inr (True, demo)
   \<and> run demo (concat (replicate 51 [AddBit True False True, AddBit False False True])
                 @ replicate 21 (AddBit True False True))
       = Some (Inl (MaxSequenceExceeded True))
   \<and> returned (run demo (concat (replicate 51 [AddBit True False True, AddBit False False True])
                 @ replicate 20 (AddBit True False True)))"
proof -
  have f: "firstFatal [] (bitsOf (concat (replicate 51 [AddBit True False True, AddBit False False True])
             @ replicate 21 (AddBit True False True))) = Some True"
    by code_simp
  have g: "firstFatal [] (bitsOf (concat (replicate 51 [AddBit True False True, AddBit False False True])
             @ replicate 20 (AddBit True False True))) = None"
    by code_simp
  from run_length_guard[OF demo_start,
      of "concat (replicate 51 [AddBit True False True, AddBit False False True])
             @ replicate 21 (AddBit True False True)"]
  have "run demo (concat (replicate 51 [AddBit True False True, AddBit False False True])
                 @ replicate 21 (AddBit True False True))
       = Some (Inl (MaxSequenceExceeded True))"
    by (simp only: f option.case)
  moreover from run_length_guard[OF demo_start,
      of "concat (replicate 51 [AddBit True False True, AddBit False False True])
             @ replicate 20 (AddBit True False True)"]
  have "returned (run demo (concat (replicate 51 [AddBit True False True, AddBit False False True])
                 @ replicate 20 (AddBit True False True)))"
    by (simp only: g option.case)
  ultimately show ?thesis using demo_start by blast
qed

text \<open>
  C2, as the claim states it, fails twice. First, with exactly 100 bits sampled the
  counters are not yet used: after 100 calls for the even lane whose bits alternate, 21
  calls for the even lane with the bit 1 all return (the 101st bit is not counted, so the
  run counter stands at 20), and it is a 22nd such call that ends in \<open>exit\<close>. Second, the counters do not follow a lane: in 144 calls
  that alternate between the lanes, the even lane carrying 1 and the odd lane 0
  throughout, each lane shows 72 equal bits, and every call returns.
\<close>

theorem run_length_guard_counterexample:
  "inmHealthCheckStart initial allocating 1 2 False = Inr (True, demo)
   \<and> returned (run demo (concat (replicate 50 [AddBit True False True, AddBit False False True])
                 @ replicate 21 (AddBit True False True)))
   \<and> run demo (concat (replicate 50 [AddBit True False True, AddBit False False True])
                 @ replicate 22 (AddBit True False True))
       = Some (Inl (MaxSequenceExceeded True))
   \<and> returned (run demo (concat (replicate 72 [AddBit True False True, AddBit True False False])))"
proof -
  have h: "firstFatal [] (bitsOf (concat (replicate 50 [AddBit True False True, AddBit False False True])
             @ replicate 22 (AddBit True False True))) = Some True"
    by code_simp
  from run_from_start[OF demo_start,
      of "concat (replicate 50 [AddBit True False True, AddBit False False True])
             @ replicate 22 (AddBit True False True)"]
  have late: "run demo (concat (replicate 50 [AddBit True False True, AddBit False False True])
                 @ replicate 22 (AddBit True False True))
       = Some (Inl (MaxSequenceExceeded True))"
    unfolding h by simp
  have f: "firstFatal [] (bitsOf (concat (replicate 50 [AddBit True False True, AddBit False False True])
             @ replicate 21 (AddBit True False True))) = None"
    by code_simp
  have g: "firstFatal [] (bitsOf (concat (replicate 72 [AddBit True False True, AddBit True False False])))
             = None"
    by code_simp
  from run_from_start[OF demo_start,
      of "concat (replicate 50 [AddBit True False True, AddBit False False True])
             @ replicate 21 (AddBit True False True)"]
  have "returned (run demo (concat (replicate 50 [AddBit True False True, AddBit False False True])
                 @ replicate 21 (AddBit True False True)))"
    unfolding f by (auto simp: returned_Inr)
  moreover from run_from_start[OF demo_start,
      of "concat (replicate 72 [AddBit True False True, AddBit True False False])"]
  have "returned (run demo (concat (replicate 72 [AddBit True False True, AddBit True False False])))"
    unfolding g by (auto simp: returned_Inr)
  ultimately show ?thesis using demo_start late by blast
qed

end
